theory Spec2Isabelle
  imports
    Complex_Main
    "HOL-Library.Multiset"
    "HOL-Library.Sublist"
    "HOL-Library.Signed_Division"
    "HOL-Library.Word"
begin

section \<open>Conventions of the embedding\<close>

text \<open>
  The development embeds three pieces of the LightGBM sources:
  \<^item> \<open>Threading::BlockInfo\<close> and \<open>Threading::For\<close> of \<open>include/LightGBM/utils/threading.h\<close>;
  \<^item> the class \<open>DataPartition\<close> (\<open>Init\<close>, \<open>Split\<close>, \<open>SetUsedDataIndices\<close>,
    \<open>GetIndexOnLeaf\<close> and its constructor);
  \<^item> \<open>AlignmentAllocator::max_size\<close> and \<open>AlignmentAllocator::allocate\<close>.

  A value of a signed integer type of \<open>w\<close> bits (\<open>w = 32\<close> for \<open>int\<close> and for \<open>data_size_t\<close>,
  which is \<open>int32_t\<close>) is an integer, and every sum, difference, product and quotient that
  the sources compute in such a type is taken in two's complement: \<open>wrap w x\<close> is the value of
  the type that is congruent to \<open>x\<close> modulo \<open>2 ^ w\<close>. Signed overflow is undefined in C++; the
  wrap-around is what the builds at hand do. The operator \<open>/\<close> of C++ truncates towards zero;
  it is \<open>sdiv\<close> here, and a division by zero, undefined in C++, yields \<open>0\<close> (every statement
  below has divisors of at least \<open>1\<close>). Pointer arithmetic and the loop counters \<open>i\<close>, \<open>i - 1\<close>
  of the loops cannot overflow and are plain integers. Values of type \<open>std::size_t\<close> are
  64-bit words, whose arithmetic wraps around as the unsigned arithmetic of C++ does.

  An access outside a \<open>std::vector\<close> or outside the memory behind a pointer is undefined
  behaviour in C++. The embedding makes it a value: every function that indexes a buffer
  returns \<open>Inl (OutOfRange b i)\<close>, naming the buffer and the offending index, instead of a
  state, and nothing runs after it. An exception that leaves \<open>DataPartition::Split\<close> is the
  value \<open>Inl (Uncaught e)\<close>. The OpenMP loops run their iterations in increasing order here;
  the iterations of each such loop write pairwise different cells.
\<close>

type_synonym exn = string

datatype fault = OutOfRange string int | Uncaught exn

definition wrap :: "nat \<Rightarrow> int \<Rightarrow> int" where
  "wrap w x = (x + 2 ^ (w - 1)) mod (2 * 2 ^ (w - 1)) - 2 ^ (w - 1)"

definition iadd :: "nat \<Rightarrow> int \<Rightarrow> int \<Rightarrow> int" where
  "iadd w x y = wrap w (x + y)"

definition isub :: "nat \<Rightarrow> int \<Rightarrow> int \<Rightarrow> int" where
  "isub w x y = wrap w (x - y)"

definition imul :: "nat \<Rightarrow> int \<Rightarrow> int \<Rightarrow> int" where
  "imul w x y = wrap w (x * y)"

definition idiv :: "nat \<Rightarrow> int \<Rightarrow> int \<Rightarrow> int" where
  "idiv w x y = wrap w (x sdiv y)"

definition bindR :: "fault + 'a \<Rightarrow> ('a \<Rightarrow> fault + 'b) \<Rightarrow> fault + 'b" where
  "bindR m f = (case m of Inl e \<Rightarrow> Inl e | Inr x \<Rightarrow> f x)"

text \<open>A sequential loop over a list of iterations that stops at the first fault.\<close>

fun foldR :: "('a \<Rightarrow> 's \<Rightarrow> fault + 's) \<Rightarrow> 'a list \<Rightarrow> 's \<Rightarrow> fault + 's" where
  "foldR f [] s = Inr s"
| "foldR f (x # xs) s = bindR (f x s) (foldR f xs)"

text \<open>\<open>v[i]\<close> as a read and as a write, for a vector named \<open>b\<close>.\<close>

definition vec_get :: "string \<Rightarrow> 'a list \<Rightarrow> int \<Rightarrow> fault + 'a" where
  "vec_get b v i =
     (if 0 \<le> i \<and> i < int (length v) then Inr (v ! nat i) else Inl (OutOfRange b i))"

definition vec_set :: "string \<Rightarrow> 'a list \<Rightarrow> int \<Rightarrow> 'a \<Rightarrow> fault + 'a list" where
  "vec_set b v i x =
     (if 0 \<le> i \<and> i < int (length v) then Inr (v[nat i := x]) else Inl (OutOfRange b i))"

text \<open>
  Reading \<open>n\<close> cells from the pointer \<open>v.data() + off\<close>, and writing the cells \<open>ys\<close> to the
  pointer \<open>v.data() + pos\<close> (\<open>put v p ys\<close> is \<open>v\<close> with \<open>ys\<close> laid over it from position \<open>p\<close> on).
  A transfer of no cell touches no memory.
\<close>

definition read_cells :: "string \<Rightarrow> 'a list \<Rightarrow> int \<Rightarrow> int \<Rightarrow> fault + 'a list" where
  "read_cells b v off n =
     (if n \<le> 0 then Inr []
      else if 0 \<le> off \<and> off + n \<le> int (length v)
      then Inr (take (nat n) (drop (nat off) v))
      else Inl (OutOfRange b (if off < 0 then off else int (length v))))"

definition put :: "'a list \<Rightarrow> nat \<Rightarrow> 'a list \<Rightarrow> 'a list" where
  "put v p ys = take p v @ ys @ drop (p + length ys) v"

definition write_cells :: "string \<Rightarrow> 'a list \<Rightarrow> int \<Rightarrow> 'a list \<Rightarrow> fault + 'a list" where
  "write_cells b v pos ys =
     (if ys = [] then Inr v
      else if 0 \<le> pos \<and> pos + int (length ys) \<le> int (length v)
      then Inr (put v (nat pos) ys)
      else Inl (OutOfRange b (if pos < 0 then pos else int (length v))))"

section \<open>The block scheduler (threading.h)\<close>

text \<open>
  Modelled from the spec: the macro \<open>SIZE_ALIGNED\<close> and the constant \<open>kAlignedSize\<close> it uses
  are not part of the sources at hand. The specification says that the block size is rounded
  up to an alignment boundary; \<open>SIZE_ALIGNED w A t\<close> is the round-up of \<open>t\<close> to a multiple of
  the alignment \<open>A\<close>, computed in the index type of \<open>w\<close> bits. The alignment is a parameter of
  everything below.
\<close>

definition SIZE_ALIGNED :: "nat \<Rightarrow> int \<Rightarrow> int \<Rightarrow> int" where
  "SIZE_ALIGNED w A t = imul w (idiv w (isub w (iadd w t A) 1) A) A"

text \<open>
  \<open>Threading::BlockInfo\<close>. \<open>w\<close> is the number of bits of the signed type \<open>INDEX_T\<close> (at
  least \<open>32\<close>, so that no operand is promoted). The argument \<open>num_threads\<close> is the value that
  \<open>omp_get_num_threads()\<close> yields inside the parallel region (the first overload asks OpenMP
  for it, the second overload takes it as an argument; their bodies agree). The quotient is
  narrowed by \<open>static_cast<int>\<close>, which is \<open>wrap 32\<close>. The result is the pair
  \<open>(*out_nblock, *block_size)\<close>.
\<close>

definition BlockInfo :: "nat \<Rightarrow> int \<Rightarrow> int \<Rightarrow> int \<Rightarrow> int \<Rightarrow> int \<times> int" where
  "BlockInfo w num_threads A cnt min_cnt_per_block =
     (let out_nblock = min num_threads
            (wrap 32 (idiv w (isub w (iadd w cnt min_cnt_per_block) 1) min_cnt_per_block))
      in if out_nblock > 1
         then (out_nblock, SIZE_ALIGNED w A (idiv w (isub w (iadd w cnt out_nblock) 1) out_nblock))
         else (out_nblock, cnt))"

text \<open>
  Modelled from the spec: the macros \<open>OMP_INIT_EX\<close>, \<open>OMP_LOOP_EX_BEGIN\<close>, \<open>OMP_LOOP_EX_END\<close>
  and \<open>OMP_THROW_EX\<close> of \<open>openmp_wrapper.h\<close> are not part of the sources at hand. By the
  specification a failure that the body of a block signals is captured, the other blocks
  still run, and the first captured failure is thrown again after all blocks have finished.
  The helper object holds the first captured exception; \<open>CaptureException\<close> files one more
  outcome of a body (\<open>None\<close> when the body returned).
\<close>

definition CaptureException :: "exn option \<Rightarrow> exn option \<Rightarrow> exn option" where
  "CaptureException omp_except_helper ex =
     (case omp_except_helper of None \<Rightarrow> ex | Some e \<Rightarrow> Some e)"

text \<open>
  \<open>Threading::For\<close>: the loop over the block indices \<open>0, ..., n_block - 1\<close>, each calling
  \<open>inner_fun i inner_start inner_end\<close> on the state. A body yields the exception it throws,
  if any, and the state it leaves behind. The result of \<open>For\<close> is the state after the loop
  together with the returned \<open>n_block\<close> (\<open>Inr\<close>) or the exception that \<open>OMP_THROW_EX\<close> throws
  (\<open>Inl\<close>).
\<close>

definition For ::
  "nat \<Rightarrow> int \<Rightarrow> int \<Rightarrow> int \<Rightarrow> int \<Rightarrow> int
     \<Rightarrow> (int \<Rightarrow> int \<Rightarrow> int \<Rightarrow> 's \<Rightarrow> fault + exn option \<times> 's) \<Rightarrow> 's
     \<Rightarrow> fault + (exn + int) \<times> 's" where
  "For w num_threads A start end' min_block_size inner_fun s =
     (let (n_block, num_inner) = BlockInfo w num_threads A (isub w end' start) min_block_size
      in bindR
           (foldR
              (\<lambda>i (omp_except_helper, st).
                  let inner_start = iadd w start (imul w num_inner i);
                      inner_end = min end' (iadd w inner_start num_inner)
                  in bindR (inner_fun i inner_start inner_end st) (\<lambda>(ex, s').
                       Inr (CaptureException omp_except_helper ex, s')))
              (map int [0..<nat n_block]) (None, s))
           (\<lambda>(omp_except_helper, s').
               Inr (case omp_except_helper of None \<Rightarrow> Inr n_block | Some e \<Rightarrow> Inl e, s')))"

section \<open>The leaf partition store (class DataPartition)\<close>

text \<open>
  The fields of the class, under their names without the trailing underscore. The borrowed
  pointer \<open>used_data_indices_\<close> is \<open>None\<close> for \<open>nullptr\<close> and otherwise the contents of the
  caller's array it points to.
\<close>

record DataPartition =
  num_data :: int
  num_leaves :: int
  leaf_begin :: "int list"
  leaf_count :: "int list"
  indices :: "int list"
  temp_left_indices :: "int list"
  temp_right_indices :: "int list"
  used_data_indices :: "int list option"
  used_data_count :: int
  num_threads :: int
  offsets_buf :: "int list"
  left_cnts_buf :: "int list"
  right_cnts_buf :: "int list"
  left_write_pos_buf :: "int list"
  right_write_pos_buf :: "int list"

text \<open>
  The constructor. \<open>T\<close> is the value of \<open>omp_get_num_threads()\<close> at construction;
  \<open>resize\<close> fills a vector with zeros. The constructor leaves \<open>used_data_count_\<close>
  uninitialised; no function reads it while \<open>used_data_indices_\<close> is \<open>nullptr\<close>, and it is
  \<open>0\<close> here.
\<close>

definition DataPartition_new :: "int \<Rightarrow> int \<Rightarrow> int \<Rightarrow> DataPartition" where
  "DataPartition_new T num_data' num_leaves' =
     \<lparr> num_data = num_data',
       num_leaves = num_leaves',
       leaf_begin = replicate (nat num_leaves') 0,
       leaf_count = replicate (nat num_leaves') 0,
       indices = replicate (nat num_data') 0,
       temp_left_indices = replicate (nat num_data') 0,
       temp_right_indices = replicate (nat num_data') 0,
       used_data_indices = None,
       used_data_count = 0,
       num_threads = T,
       offsets_buf = replicate (nat T) 0,
       left_cnts_buf = replicate (nat T) 0,
       right_cnts_buf = replicate (nat T) 0,
       left_write_pos_buf = replicate (nat T) 0,
       right_write_pos_buf = replicate (nat T) 0 \<rparr>"

definition SetUsedDataIndices :: "int list option \<Rightarrow> int \<Rightarrow> DataPartition \<Rightarrow> DataPartition" where
  "SetUsedDataIndices used_data_indices' num_used_data s =
     s\<lparr>used_data_indices := used_data_indices', used_data_count := num_used_data\<rparr>"

text \<open>
  \<open>GetIndexOnLeaf\<close> returns the pointer \<open>indices_.data() + begin\<close> and the length of the
  leaf; the result here is the contents of that view, with its length.
\<close>

definition GetIndexOnLeaf :: "int \<Rightarrow> DataPartition \<Rightarrow> fault + int list \<times> int" where
  "GetIndexOnLeaf leaf s =
     bindR (vec_get ''leaf_begin_'' (leaf_begin s) leaf) (\<lambda>begin.
     bindR (vec_get ''leaf_count_'' (leaf_count s) leaf) (\<lambda>out_len.
     bindR (read_cells ''indices_'' (indices s) begin out_len) (\<lambda>view.
     Inr (view, out_len))))"

subsection \<open>Init\<close>

text \<open>The loop \<open>for (i = 0; i < num_data_; ++i) indices_[i] = i\<close>.\<close>

definition fill_identity :: "int \<Rightarrow> int list \<Rightarrow> fault + int list" where
  "fill_identity n v = foldR (\<lambda>i v. vec_set ''indices_'' v i i) (map int [0..<nat n]) v"

text \<open>\<open>std::memcpy (dst.data(), src, n * sizeof(data_size_t))\<close>.\<close>

definition memcpy :: "int list \<Rightarrow> int list \<Rightarrow> int \<Rightarrow> fault + int list" where
  "memcpy dst src n =
     (if n < 0 then Inl (OutOfRange ''used_data_indices_'' n)
      else bindR (read_cells ''used_data_indices_'' src 0 n) (\<lambda>xs.
           write_cells ''indices_'' dst 0 xs))"

definition Init :: "DataPartition \<Rightarrow> fault + DataPartition" where
  "Init s =
     (let s0 = s\<lparr>leaf_begin := replicate (length (leaf_begin s)) 0,
                 leaf_count := replicate (length (leaf_count s)) 0\<rparr>
      in case used_data_indices s0 of
           None \<Rightarrow>
             bindR (vec_set ''leaf_count_'' (leaf_count s0) 0 (num_data s0)) (\<lambda>lc.
             bindR (fill_identity (num_data s0) (indices s0)) (\<lambda>idx.
             Inr (s0\<lparr>leaf_count := lc, indices := idx\<rparr>)))
         | Some used \<Rightarrow>
             bindR (vec_set ''leaf_count_'' (leaf_count s0) 0 (used_data_count s0)) (\<lambda>lc.
             bindR (memcpy (indices s0) used (used_data_count s0)) (\<lambda>idx.
             Inr (s0\<lparr>leaf_count := lc, indices := idx\<rparr>))))"

subsection \<open>Split\<close>

text \<open>
  Modelled from the spec: \<open>Dataset::Split\<close>, the split-decision oracle, is not part of the
  sources at hand. By the specification it takes a contiguous slice of example ids, routes
  each of them left or right, writes the ids routed left to the left destination and the
  others to the right destination, never reordering the ids it keeps on one side, and
  returns the count routed left. The arguments \<open>feature\<close>, \<open>threshold\<close>, \<open>num_threshold\<close>
  and \<open>default_left\<close> of one \<open>Split\<close> call fix the decision: \<open>orc xs k\<close> tells whether the
  oracle routes the id at position \<open>k\<close> of the slice \<open>xs\<close> left. The result is the pair of
  the sequences written to the two destinations.
\<close>

type_synonym decision = "int list \<Rightarrow> nat \<Rightarrow> bool"

definition dataset_Split :: "decision \<Rightarrow> int list \<Rightarrow> int list \<times> int list" where
  "dataset_Split orc xs =
     (map (nth xs) (filter (orc xs) [0..<length xs]),
      map (nth xs) (filter (\<lambda>k. \<not> orc xs k) [0..<length xs]))"

text \<open>
  The body that \<open>Split\<close> hands to \<open>Threading::For\<close> (the lambda of lines 125 to 141). Its
  subtractions are subtractions of \<open>data_size_t\<close>; the oracle returns a count between \<open>0\<close>
  and \<open>cur_cnt\<close>.
\<close>

definition split_block ::
  "decision \<Rightarrow> int \<Rightarrow> int \<Rightarrow> int \<Rightarrow> int \<Rightarrow> DataPartition \<Rightarrow> fault + DataPartition" where
  "split_block orc begin i cur_start cur_end s =
     (let cur_cnt = isub 32 cur_end cur_start
      in if cur_cnt \<le> 0 then
           bindR (vec_set ''left_cnts_buf_'' (left_cnts_buf s) i 0) (\<lambda>lc.
           bindR (vec_set ''right_cnts_buf_'' (right_cnts_buf s) i 0) (\<lambda>rc.
           Inr (s\<lparr>left_cnts_buf := lc, right_cnts_buf := rc\<rparr>)))
         else
           bindR (read_cells ''indices_'' (indices s) (begin + cur_start) cur_cnt) (\<lambda>xs.
           let (lte, gt) = dataset_Split orc xs;
               cur_left_count = int (length lte)
           in
           bindR (write_cells ''temp_left_indices_'' (temp_left_indices s) cur_start lte) (\<lambda>tl.
           bindR (write_cells ''temp_right_indices_'' (temp_right_indices s) cur_start gt) (\<lambda>tr.
           bindR (vec_set ''offsets_buf_'' (offsets_buf s) i cur_start) (\<lambda>ob.
           bindR (vec_set ''left_cnts_buf_'' (left_cnts_buf s) i cur_left_count) (\<lambda>lc.
           bindR (vec_set ''right_cnts_buf_'' (right_cnts_buf s) i (isub 32 cur_cnt cur_left_count)) (\<lambda>rc.
           Inr (s\<lparr>temp_left_indices := tl, temp_right_indices := tr, offsets_buf := ob,
                  left_cnts_buf := lc, right_cnts_buf := rc\<rparr>))))))))"

text \<open>One iteration of the prefix-sum loop of lines 146 to 149.\<close>

definition write_pos_step :: "int \<Rightarrow> DataPartition \<Rightarrow> fault + DataPartition" where
  "write_pos_step i s =
     bindR (vec_get ''left_write_pos_buf_'' (left_write_pos_buf s) (i - 1)) (\<lambda>lp.
     bindR (vec_get ''left_cnts_buf_'' (left_cnts_buf s) (i - 1)) (\<lambda>lc.
     bindR (vec_set ''left_write_pos_buf_'' (left_write_pos_buf s) i (iadd 32 lp lc)) (\<lambda>lwp.
     bindR (vec_get ''right_write_pos_buf_'' (right_write_pos_buf s) (i - 1)) (\<lambda>rp.
     bindR (vec_get ''right_cnts_buf_'' (right_cnts_buf s) (i - 1)) (\<lambda>rc.
     bindR (vec_set ''right_write_pos_buf_'' (right_write_pos_buf s) i (iadd 32 rp rc)) (\<lambda>rwp.
     Inr (s\<lparr>left_write_pos_buf := lwp, right_write_pos_buf := rwp\<rparr>)))))))"

text \<open>
  One iteration of the merge loop of lines 154 to 159: the two \<open>std::copy_n\<close> calls, with
  \<open>left_start = indices_.data() + begin\<close> and \<open>right_start = left_start + left_cnt\<close>.
\<close>

definition merge_block :: "int \<Rightarrow> int \<Rightarrow> int \<Rightarrow> DataPartition \<Rightarrow> fault + DataPartition" where
  "merge_block begin left_cnt i s =
     bindR (vec_get ''offsets_buf_'' (offsets_buf s) i) (\<lambda>off.
     bindR (vec_get ''left_cnts_buf_'' (left_cnts_buf s) i) (\<lambda>lc.
     bindR (vec_get ''left_write_pos_buf_'' (left_write_pos_buf s) i) (\<lambda>lp.
     bindR (read_cells ''temp_left_indices_'' (temp_left_indices s) off lc) (\<lambda>ls.
     bindR (write_cells ''indices_'' (indices s) (begin + lp) ls) (\<lambda>idx1.
     bindR (vec_get ''right_cnts_buf_'' (right_cnts_buf s) i) (\<lambda>rc.
     bindR (vec_get ''right_write_pos_buf_'' (right_write_pos_buf s) i) (\<lambda>rp.
     bindR (read_cells ''temp_right_indices_'' (temp_right_indices s) off rc) (\<lambda>rs.
     bindR (write_cells ''indices_'' idx1 (begin + left_cnt + rp) rs) (\<lambda>idx2.
     Inr (s\<lparr>indices := idx2\<rparr>))))))))))"

text \<open>
  A body that throws no exception: the lambda of \<open>Split\<close> returns (the oracle of the model
  never fails) or runs into undefined behaviour.
\<close>

definition returns :: "fault + 's \<Rightarrow> fault + exn option \<times> 's" where
  "returns m = bindR m (\<lambda>s'. Inr (None, s'))"

text \<open>
  \<open>DataPartition::Split\<close>. \<open>T\<close> is the value of \<open>omp_get_num_threads()\<close> during the call and
  \<open>A\<close> the alignment; \<open>orc\<close> stands for the dataset with the feature, the thresholds and the
  default direction. \<open>Threading::For\<close> is instantiated at \<open>data_size_t\<close>, of \<open>32\<close> bits; an
  exception that it throws leaves \<open>Split\<close>.
\<close>

definition Split ::
  "int \<Rightarrow> int \<Rightarrow> int \<Rightarrow> decision \<Rightarrow> int \<Rightarrow> DataPartition \<Rightarrow> fault + DataPartition" where
  "Split T A leaf orc right_leaf s =
     bindR (vec_get ''leaf_begin_'' (leaf_begin s) leaf) (\<lambda>begin.
     bindR (vec_get ''leaf_count_'' (leaf_count s) leaf) (\<lambda>cnt.
     bindR (For 32 T A 0 cnt 1024
              (\<lambda>i cur_start cur_end st. returns (split_block orc begin i cur_start cur_end st)) s)
       (\<lambda>(thrown_or_nblock, s1).
     case thrown_or_nblock of
       Inl e \<Rightarrow> Inl (Uncaught e)
     | Inr nblock \<Rightarrow>
     bindR (vec_set ''left_write_pos_buf_'' (left_write_pos_buf s1) 0 0) (\<lambda>lwp.
     bindR (vec_set ''right_write_pos_buf_'' (right_write_pos_buf s1) 0 0) (\<lambda>rwp.
     bindR (foldR write_pos_step (map int [1..<nat nblock])
              (s1\<lparr>left_write_pos_buf := lwp, right_write_pos_buf := rwp\<rparr>)) (\<lambda>s2.
     bindR (vec_get ''left_write_pos_buf_'' (left_write_pos_buf s2) (isub 32 nblock 1)) (\<lambda>lp.
     bindR (vec_get ''left_cnts_buf_'' (left_cnts_buf s2) (isub 32 nblock 1)) (\<lambda>lc.
     let left_cnt = iadd 32 lp lc in
     bindR (foldR (merge_block begin left_cnt) (map int [0..<nat nblock]) s2) (\<lambda>s3.
     bindR (vec_set ''leaf_count_'' (leaf_count s3) leaf left_cnt) (\<lambda>lc1.
     bindR (vec_set ''leaf_begin_'' (leaf_begin s3) right_leaf (iadd 32 left_cnt begin)) (\<lambda>lb.
     bindR (vec_set ''leaf_count_'' lc1 right_leaf (isub 32 cnt left_cnt)) (\<lambda>lc2.
     Inr (s3\<lparr>leaf_count := lc2, leaf_begin := lb\<rparr>)))))))))))))"

subsection \<open>Notions for stating the properties of Split\<close>

text \<open>
  The blocks of one \<open>Split\<close> call cut the range of the parent leaf into slices: block \<open>i\<close>
  covers the positions from \<open>i * bs\<close> up to \<open>min cnt ((i + 1) * bs)\<close> of the parent range,
  where \<open>(nb, bs)\<close> is what \<open>BlockInfo\<close> returns for the length \<open>cnt\<close> of the range and the
  minimum block size \<open>1024\<close>. \<open>Split_slices\<close> lists the slices in block order; a block whose
  range is empty contributes the empty slice.
\<close>

definition block_slice :: "nat \<Rightarrow> int list \<Rightarrow> nat \<Rightarrow> int list" where
  "block_slice bs parent i =
     take (min (length parent) ((i + 1) * bs) - i * bs) (drop (i * bs) parent)"

definition Split_slices :: "int \<Rightarrow> int \<Rightarrow> int list \<Rightarrow> int list list" where
  "Split_slices T A parent =
     (let (nb, bs) = BlockInfo 32 T A (int (length parent)) 1024
      in map (block_slice (nat bs) parent) [0..<nat nb])"

text \<open>What the oracle routes left and right, block after block.\<close>

definition routed_left :: "decision \<Rightarrow> int list list \<Rightarrow> int list" where
  "routed_left orc slices = concat (map (\<lambda>xs. fst (dataset_Split orc xs)) slices)"

definition routed_right :: "decision \<Rightarrow> int list list \<Rightarrow> int list" where
  "routed_right orc slices = concat (map (\<lambda>xs. snd (dataset_Split orc xs)) slices)"

text \<open>
  \<open>sized T s\<close>: the vectors of the store have the sizes that the constructor (and
  \<open>ResetLeaves\<close>, \<open>ResetNumData\<close>) give them, and each per-thread buffer has an entry for
  each of the \<open>T\<close> threads that \<open>omp_get_num_threads()\<close> reports during a call.
\<close>

definition sized :: "int \<Rightarrow> DataPartition \<Rightarrow> bool" where
  "sized T s \<longleftrightarrow>
     0 \<le> num_data s
   \<and> int (length (indices s)) = num_data s
   \<and> int (length (temp_left_indices s)) = num_data s
   \<and> int (length (temp_right_indices s)) = num_data s
   \<and> int (length (leaf_begin s)) = num_leaves s
   \<and> int (length (leaf_count s)) = num_leaves s
   \<and> 1 \<le> T
   \<and> T \<le> int (length (offsets_buf s))
   \<and> T \<le> int (length (left_cnts_buf s))
   \<and> T \<le> int (length (right_cnts_buf s))
   \<and> T \<le> int (length (left_write_pos_buf s))
   \<and> T \<le> int (length (right_write_pos_buf s))"

text \<open>A leaf id of the store whose range lies inside \<open>indices_\<close>, and the ids in that range.\<close>

definition leaf_in_store :: "DataPartition \<Rightarrow> int \<Rightarrow> bool" where
  "leaf_in_store s leaf \<longleftrightarrow>
     0 \<le> leaf \<and> leaf < num_leaves s
   \<and> 0 \<le> leaf_begin s ! nat leaf \<and> 0 \<le> leaf_count s ! nat leaf
   \<and> leaf_begin s ! nat leaf + leaf_count s ! nat leaf \<le> num_data s"

definition leaf_range :: "DataPartition \<Rightarrow> int \<Rightarrow> int list" where
  "leaf_range s leaf =
     take (nat (leaf_count s ! nat leaf)) (drop (nat (leaf_begin s ! nat leaf)) (indices s))"

text \<open>
  The contents of the store that outlive a call (everything but the scratch buffers), and two
  stores that differ at most in what their scratch buffers hold.
\<close>

definition contents ::
  "DataPartition \<Rightarrow> int \<times> int \<times> int list \<times> int list \<times> int list \<times> int list option \<times> int \<times> int" where
  "contents s =
     (num_data s, num_leaves s, leaf_begin s, leaf_count s, indices s,
      used_data_indices s, used_data_count s, num_threads s)"

definition scratch_variant :: "DataPartition \<Rightarrow> DataPartition \<Rightarrow> bool" where
  "scratch_variant s s2 \<longleftrightarrow>
     contents s2 = contents s
   \<and> length (temp_left_indices s2) = length (temp_left_indices s)
   \<and> length (temp_right_indices s2) = length (temp_right_indices s)
   \<and> length (offsets_buf s2) = length (offsets_buf s)
   \<and> length (left_cnts_buf s2) = length (left_cnts_buf s)
   \<and> length (right_cnts_buf s2) = length (right_cnts_buf s)
   \<and> length (left_write_pos_buf s2) = length (left_write_pos_buf s)
   \<and> length (right_write_pos_buf s2) = length (right_write_pos_buf s)"

subsection \<open>Notions for stating the partition invariant\<close>

text \<open>
  The active example ids: \<open>0, ..., num_data - 1\<close> without bagging, and the first
  \<open>used_data_count_\<close> entries of the array behind \<open>used_data_indices_\<close> with bagging.
  \<open>bagging_ok\<close> is the caller's side of \<open>SetUsedDataIndices\<close>: the count is covered by the
  array and by the store, and no id occurs twice in the subset.
\<close>

definition active_ids :: "DataPartition \<Rightarrow> int list" where
  "active_ids s =
     (case used_data_indices s of
        None \<Rightarrow> map int [0..<nat (num_data s)]
      | Some used \<Rightarrow> take (nat (used_data_count s)) used)"

definition bagging_ok :: "DataPartition \<Rightarrow> bool" where
  "bagging_ok s \<longleftrightarrow>
     (case used_data_indices s of
        None \<Rightarrow> True
      | Some used \<Rightarrow>
          0 \<le> used_data_count s \<and> used_data_count s \<le> num_data s
        \<and> used_data_count s \<le> int (length used)
        \<and> distinct (take (nat (used_data_count s)) used))"

text \<open>The positions of \<open>indices_\<close> that a leaf owns.\<close>

definition leaf_span :: "DataPartition \<Rightarrow> int \<Rightarrow> int set" where
  "leaf_span s l = {leaf_begin s ! nat l ..< leaf_begin s ! nat l + leaf_count s ! nat l}"

text \<open>
  The leaf ranges tile the prefix of \<open>indices_\<close> that holds the active ids: no count is
  negative, two different leaves own no common position, and the positions owned by some
  leaf are exactly those of the prefix.
\<close>

definition tiles :: "DataPartition \<Rightarrow> bool" where
  "tiles s \<longleftrightarrow>
     (\<forall>l\<in>{0..<num_leaves s}. 0 \<le> leaf_count s ! nat l)
   \<and> (\<forall>l\<in>{0..<num_leaves s}. \<forall>l'\<in>{0..<num_leaves s}.
         l \<noteq> l' \<longrightarrow> leaf_span s l \<inter> leaf_span s l' = {})
   \<and> (\<Union>l\<in>{0..<num_leaves s}. leaf_span s l) = {0..<int (length (active_ids s))}"

definition partition_invariant :: "DataPartition \<Rightarrow> bool" where
  "partition_invariant s \<longleftrightarrow>
     sum_list (leaf_count s) = int (length (active_ids s))
   \<and> tiles s
   \<and> mset (take (length (active_ids s)) (indices s)) = mset (active_ids s)
   \<and> (\<forall>x\<in>set (active_ids s). \<exists>!l. l \<in> {0..<num_leaves s} \<and> x \<in> set (leaf_range s l))"

text \<open>
  The facts that \<open>Init\<close> establishes and each \<open>Split\<close> keeps, from which the partition
  invariant follows.
\<close>

definition consistent :: "int \<Rightarrow> DataPartition \<Rightarrow> bool" where
  "consistent T s \<longleftrightarrow>
     sized T s \<and> bagging_ok s
   \<and> sum_list (leaf_count s) = int (length (active_ids s))
   \<and> tiles s
   \<and> mset (take (length (active_ids s)) (indices s)) = mset (active_ids s)"

text \<open>
  A sequence of \<open>Split\<close> calls, each given by the thread count \<open>T\<close> that
  \<open>omp_get_num_threads()\<close> reports during the call, its leaf, its oracle and its right leaf,
  and the caller's side of each call of the sequence at the store the call meets: the thread
  count is at least \<open>1\<close> and at most \<open>T0\<close>, both leaf ids are ids of the store, they differ,
  the right leaf is not in use (it owns no position), and the leaf to split owns a position.
\<close>

fun Splits ::
  "int \<Rightarrow> (int \<times> int \<times> decision \<times> int) list \<Rightarrow> DataPartition \<Rightarrow> fault + DataPartition" where
  "Splits A [] s = Inr s"
| "Splits A ((T, leaf, orc, right_leaf) # calls) s =
     bindR (Split T A leaf orc right_leaf s) (Splits A calls)"

fun splits_ok ::
  "int \<Rightarrow> int \<Rightarrow> (int \<times> int \<times> decision \<times> int) list \<Rightarrow> DataPartition \<Rightarrow> bool" where
  "splits_ok T0 A [] s = True"
| "splits_ok T0 A ((T, leaf, orc, right_leaf) # calls) s =
     (1 \<le> T \<and> T \<le> T0
      \<and> 0 \<le> leaf \<and> leaf < num_leaves s \<and> 0 \<le> right_leaf \<and> right_leaf < num_leaves s
      \<and> leaf \<noteq> right_leaf
      \<and> leaf_count s ! nat right_leaf = 0
      \<and> 0 < leaf_count s ! nat leaf
      \<and> (case Split T A leaf orc right_leaf s of
            Inl e \<Rightarrow> True
          | Inr s' \<Rightarrow> splits_ok T0 A calls s'))"

subsection \<open>The examples of the specification\<close>

text \<open>
  The oracle of the examples routes even ids left; \<open>all_left\<close> is the oracle of a split that
  routes every id left. \<open>scenario\<close> is the store of the end-to-end
  scenario (\<open>num_data = 8\<close>, \<open>num_leaves = 4\<close>, two threads) as \<open>Init\<close> leaves it, and
  \<open>bagged\<close> the same store when the subset \<open>[5, 2, 9, 1, 7]\<close> of the stability example was set
  before \<open>Init\<close>.
\<close>

definition even_left :: decision where
  "even_left xs k = even (xs ! k)"

definition all_left :: decision where
  "all_left xs k = True"

definition scenario :: DataPartition where
  "scenario = (DataPartition_new 2 8 4)
     \<lparr>leaf_count := [8, 0, 0, 0], indices := [0, 1, 2, 3, 4, 5, 6, 7]\<rparr>"

definition bagged :: DataPartition where
  "bagged = (DataPartition_new 2 8 4)
     \<lparr>used_data_indices := Some [5, 2, 9, 1, 7], used_data_count := 5,
      leaf_count := [5, 0, 0, 0], indices := [5, 2, 9, 1, 7, 0, 0, 0]\<rparr>"

text \<open>
  \<open>emptied\<close> is the scenario after \<open>Split\<close> of leaf \<open>0\<close> with the oracle \<open>all_left\<close> and
  the right leaf \<open>1\<close>: leaf \<open>1\<close> is a leaf of the tree and holds no id.
\<close>

definition emptied :: DataPartition where
  "emptied = scenario
     \<lparr>leaf_begin := [0, 8, 0, 0], temp_left_indices := [0, 1, 2, 3, 4, 5, 6, 7],
      left_cnts_buf := [8, 0]\<rparr>"

text \<open>
  \<open>large T\<close> is a store of \<open>1030\<close> examples and three leaves, constructed under \<open>T\<close> threads,
  in which leaf \<open>0\<close> holds the ids \<open>0, ..., 1024\<close>, leaf \<open>1\<close> is not in use and leaf \<open>2\<close>
  holds the other five ids: a \<open>Split\<close> of its leaf \<open>0\<close> under two or more threads runs two
  blocks.
\<close>

definition large :: "int \<Rightarrow> DataPartition" where
  "large T = (DataPartition_new T 1030 3)
     \<lparr>leaf_begin := [0, 0, 1025], leaf_count := [1025, 0, 5], indices := map int [0..<1030]\<rparr>"

text \<open>
  \<open>stale\<close> is the store \<open>large 2\<close> with leftovers of earlier calls in all its scratch
  buffers, and \<open>probe\<close> the same store when \<open>offsets_buf_\<close> has a single entry.
\<close>

definition stale :: DataPartition where
  "stale = (large 2)
     \<lparr>temp_left_indices := replicate 1030 9, temp_right_indices := replicate 1030 8,
      offsets_buf := [7, 9], left_cnts_buf := [5, 5], right_cnts_buf := [6, 6],
      left_write_pos_buf := [3, 3], right_write_pos_buf := [4, 4]\<rparr>"

definition probe :: DataPartition where
  "probe = stale\<lparr>offsets_buf := [7]\<rparr>"

section \<open>The aligned allocator (class AlignmentAllocator)\<close>

text \<open>
  \<open>std::size_t\<close> is a 64-bit word and a pointer is its address, \<open>NULL\<close> being \<open>0\<close>. The size
  \<open>sizeof(T)\<close> of the element type and the library function \<open>_mm_malloc\<close> are parameters;
  \<open>_mm_malloc\<close> returns \<open>NULL\<close> when it fails.
\<close>

type_synonym size_t = "64 word"

datatype alloc_error = length_error | bad_alloc

definition max_size :: "size_t \<Rightarrow> size_t" where
  "max_size sizeof_T = (0 - 1) div sizeof_T"

definition allocate ::
  "(size_t \<Rightarrow> size_t \<Rightarrow> size_t) \<Rightarrow> size_t \<Rightarrow> size_t \<Rightarrow> size_t \<Rightarrow> alloc_error + size_t" where
  "allocate mm_malloc sizeof_T Alignment n =
     (if n = 0 then Inr 0
      else if n > max_size sizeof_T then Inl length_error
      else let pv = mm_malloc (n * sizeof_T) Alignment
           in if pv = 0 then Inl bad_alloc else Inr pv)"

section \<open>Basic facts\<close>

lemma sdiv_nonneg: "0 \<le> a \<Longrightarrow> 0 < b \<Longrightarrow> a sdiv b = a div (b::int)"
  by (simp add: signed_divide_int_def sgn_if)

lemma sdiv_small: "\<bar>a\<bar> < b \<Longrightarrow> a sdiv b = (0::int)"
  by (simp add: signed_divide_int_def div_pos_pos_trivial)

lemma wrap_id: "- (2 ^ (w - 1)) \<le> x \<Longrightarrow> x < 2 ^ (w - 1) \<Longrightarrow> wrap w x = x"
proof -
  assume a: "- (2 ^ (w - 1)) \<le> x" "x < 2 ^ (w - 1)"
  have "(x + 2 ^ (w - 1)) mod (2 * 2 ^ (w - 1)) = x + 2 ^ (w - 1)"
    using a by (intro mod_pos_pos_trivial) simp_all
  then show ?thesis by (simp add: wrap_def)
qed

lemma wrap_bounds: "- (2 ^ (w - 1)) \<le> wrap w x" "wrap w x < 2 ^ (w - 1)"
proof -
  have p: "(0::int) < 2 * 2 ^ (w - 1)" by simp
  have "0 \<le> (x + 2 ^ (w - 1)) mod (2 * 2 ^ (w - 1))"
    "(x + 2 ^ (w - 1)) mod (2 * 2 ^ (w - 1)) < 2 * 2 ^ (w - 1)"
    using p by (simp_all del: mult_2)
  then show "- (2 ^ (w - 1)) \<le> wrap w x" "wrap w x < 2 ^ (w - 1)"
    by (simp_all add: wrap_def)
qed

lemma wrap_zero [simp]: "wrap w 0 = 0"
  by (rule wrap_id) simp_all

lemma pow_w_ge:
  assumes "32 \<le> w"
  shows "(2::int) ^ 31 \<le> 2 ^ (w - 1)"
  using assms by (intro power_increasing) simp_all

lemma wrap32_id: "- 2147483648 \<le> x \<Longrightarrow> x < 2147483648 \<Longrightarrow> wrap 32 x = x"
  using wrap_id [of 32 x] by simp

lemma iadd_id: "- (2 ^ (w - 1)) \<le> x + y \<Longrightarrow> x + y < 2 ^ (w - 1) \<Longrightarrow> iadd w x y = x + y"
  by (simp add: iadd_def wrap_id)

lemma isub_id: "- (2 ^ (w - 1)) \<le> x - y \<Longrightarrow> x - y < 2 ^ (w - 1) \<Longrightarrow> isub w x y = x - y"
  by (simp add: isub_def wrap_id)

lemma imul_id: "- (2 ^ (w - 1)) \<le> x * y \<Longrightarrow> x * y < 2 ^ (w - 1) \<Longrightarrow> imul w x y = x * y"
  by (simp add: imul_def wrap_id)

lemma idiv_id:
  "0 \<le> x \<Longrightarrow> 0 < y \<Longrightarrow> x < 2 ^ (w - 1) \<Longrightarrow> idiv w x y = x div y"
proof -
  assume a: "0 \<le> x" "0 < y" "x < 2 ^ (w - 1)"
  have "0 \<le> x div y" using a by (simp add: pos_imp_zdiv_nonneg_iff)
  moreover have "x div y \<le> x"
  proof -
    have "x div y \<le> x div 1" using a by (intro zdiv_mono2) simp_all
    then show ?thesis by simp
  qed
  moreover have "- (2 ^ (w - 1)) \<le> (0::int)" by simp
  ultimately have "wrap w (x div y) = x div y" using a(3) by (intro wrap_id) linarith+
  then show ?thesis using a by (simp add: idiv_def sdiv_nonneg)
qed

lemma iadd32_id: "- 2147483648 \<le> x + y \<Longrightarrow> x + y < 2147483648 \<Longrightarrow> iadd 32 x y = x + y"
  using iadd_id [of 32 x y] by simp

lemma isub32_id: "- 2147483648 \<le> x - y \<Longrightarrow> x - y < 2147483648 \<Longrightarrow> isub 32 x y = x - y"
  using isub_id [of 32 x y] by simp

lemma first_quotient_zero:
  assumes "1 \<le> m"
  shows "idiv w (isub w (iadd w 0 m) 1) m = 0"
proof -
  define M :: int where "M = 2 ^ (w - 1)"
  have M: "1 \<le> M" by (simp add: M_def)
  define x where "x = wrap w (wrap w m - 1)"
  have xb: "- M \<le> x" "x < M" unfolding x_def M_def by (rule wrap_bounds)+
  have "x sdiv m = 0"
  proof -
    consider "m < M" | "m = M" | "M < m" by linarith
    then show ?thesis
    proof cases
      case 1
      have "wrap w m = m" using 1 assms M unfolding M_def by (intro wrap_id) linarith+
      moreover have "wrap w (m - 1) = m - 1" using 1 assms M unfolding M_def by (intro wrap_id) linarith+
      ultimately have "x = m - 1" by (simp add: x_def)
      then show ?thesis using assms by (simp add: sdiv_small)
    next
      case 2
      have "wrap w m = - M"
        by (simp add: wrap_def 2 M_def)
      moreover have "wrap w (- M - 1) = M - 1"
      proof -
        have "(- 1) mod (2 * M) = 2 * M - 1" using M by (simp add: zmod_minus1)
        then show ?thesis by (simp add: wrap_def M_def)
      qed
      ultimately have "x = M - 1" by (simp add: x_def)
      then show ?thesis using M 2 by (simp add: sdiv_small)
    next
      case 3
      then have "\<bar>x\<bar> < m" using xb by linarith
      then show ?thesis by (rule sdiv_small)
    qed
  qed
  then show ?thesis by (simp add: idiv_def isub_def iadd_def x_def)
qed

lemma div_bounds:
  fixes a m :: int
  assumes "0 < m"
  shows "m * (a div m) \<le> a" "a < m * (a div m) + m"
proof -
  have "0 \<le> a mod m" "a mod m < m" using assms by simp_all
  moreover have "m * (a div m) + a mod m = a" by simp
  ultimately show "m * (a div m) \<le> a" "a < m * (a div m) + m" by linarith+
qed

lemma ceiling_div:
  fixes c m :: int
  assumes m: "0 < m"
  shows "\<lceil>real_of_int c / real_of_int m\<rceil> = (c + m - 1) div m"
proof (rule ceiling_unique)
  let ?k = "(c + m - 1) div m"
  have b: "m * ?k \<le> c + m - 1" "c + m - 1 < m * ?k + m"
    using div_bounds [OF m, of "c + m - 1"] by simp_all
  have "(?k - 1) * m < c" using b(1) by (simp add: algebra_simps)
  then have "real_of_int ((?k - 1) * m) < real_of_int c" by linarith
  then show "real_of_int ?k - 1 < real_of_int c / real_of_int m"
    using m by (simp add: pos_less_divide_eq)
  have "c \<le> ?k * m" using b(2) by (simp add: algebra_simps)
  then have "real_of_int c \<le> real_of_int (?k * m)" by linarith
  then show "real_of_int c / real_of_int m \<le> real_of_int ?k"
    using m by (simp add: pos_divide_le_eq)
qed

lemma roundup_props:
  fixes A t :: int
  assumes "1 \<le> A" "0 \<le> t"
  shows "A dvd A * ((t + A - 1) div A)" "t \<le> A * ((t + A - 1) div A)"
    "A * ((t + A - 1) div A) < t + A" "0 \<le> (t + A - 1) div A"
proof -
  have A: "0 < A" using assms by simp
  show "A dvd A * ((t + A - 1) div A)" by simp
  show "t \<le> A * ((t + A - 1) div A)" using div_bounds(2) [OF A, of "t + A - 1"] by simp
  show "A * ((t + A - 1) div A) < t + A" using div_bounds(1) [OF A, of "t + A - 1"] by simp
  show "0 \<le> (t + A - 1) div A" using assms by (simp add: pos_imp_zdiv_nonneg_iff)
qed

lemma SIZE_ALIGNED_exact:
  assumes "1 \<le> A" "0 \<le> t" "t + A < 2 ^ (w - 1)"
  shows "SIZE_ALIGNED w A t = A * ((t + A - 1) div A)"
proof -
  have z: "- (2 ^ (w - 1)) \<le> (0::int)" by simp
  have 1: "iadd w t A = t + A" using assms z by (intro iadd_id) linarith+
  have 2: "isub w (t + A) 1 = t + A - 1" using assms z by (intro isub_id) linarith+
  have 3: "idiv w (t + A - 1) A = (t + A - 1) div A" using assms by (intro idiv_id) linarith+
  have p: "0 \<le> (t + A - 1) div A * A" "(t + A - 1) div A * A < t + A"
    using roundup_props(3,4) [OF assms(1,2)] assms(1) by (simp_all add: mult.commute)
  have 4: "imul w ((t + A - 1) div A) A = (t + A - 1) div A * A"
    using p assms z by (intro imul_id) linarith+
  show ?thesis by (simp add: SIZE_ALIGNED_def 1 2 3 4 mult.commute)
qed

lemma quotient_bounds:
  fixes cnt n :: int
  assumes "0 \<le> cnt" "1 \<le> n"
  shows "0 \<le> (cnt + n - 1) div n" "(cnt + n - 1) div n \<le> cnt"
    "0 < cnt \<Longrightarrow> 1 \<le> (cnt + n - 1) div n" "cnt = 0 \<Longrightarrow> (cnt + n - 1) div n = 0"
    "cnt \<le> n * ((cnt + n - 1) div n)" "n * ((cnt + n - 1) div n) \<le> cnt + n - 1"
proof -
  have n: "0 < n" using assms by simp
  show q0: "0 \<le> (cnt + n - 1) div n" using assms by (simp add: pos_imp_zdiv_nonneg_iff)
  show ub: "n * ((cnt + n - 1) div n) \<le> cnt + n - 1" using div_bounds(1) [OF n, of "cnt + n - 1"] .
  show lb: "cnt \<le> n * ((cnt + n - 1) div n)" using div_bounds(2) [OF n, of "cnt + n - 1"] by simp
  show "(cnt + n - 1) div n \<le> cnt"
  proof (cases "cnt = 0")
    case True
    then show ?thesis using assms by (simp add: div_pos_pos_trivial)
  next
    case False
    have "(cnt + n - 1) div n * 1 \<le> (cnt + n - 1) div n * n" using q0 assms by (intro mult_left_mono) simp_all
    moreover have "n * (cnt - 1) \<ge> cnt - 1" using False assms by (simp add: mult_le_cancel_right1)
    ultimately have "n * ((cnt + n - 1) div n) \<le> n * cnt"
      using ub by (simp add: algebra_simps)
    then show ?thesis using n by (simp add: mult_le_cancel_left_pos)
  qed
  show "1 \<le> (cnt + n - 1) div n" if "0 < cnt"
  proof -
    have "n \<le> cnt + n - 1" using that by simp
    then have "n div n \<le> (cnt + n - 1) div n" using assms by (intro zdiv_mono1) simp_all
    then show ?thesis using assms by simp
  qed
  show "(cnt + n - 1) div n = 0" if "cnt = 0"
    using that assms by (simp add: div_pos_pos_trivial)
qed

lemma BlockInfo_exact:
  assumes w: "32 \<le> w" and a: "0 \<le> cnt" "1 \<le> m" "1 \<le> T" "1 \<le> A"
    and r: "cnt + m < 2 ^ (w - 1)" "cnt + T < 2 ^ (w - 1)" "cnt + A < 2 ^ (w - 1)"
      "(cnt + m - 1) div m < 2 ^ 31"
  shows "BlockInfo w T A cnt m =
     (if 1 < min T ((cnt + m - 1) div m)
      then (min T ((cnt + m - 1) div m),
            A * (((cnt + min T ((cnt + m - 1) div m) - 1) div min T ((cnt + m - 1) div m) + A - 1) div A))
      else (min T ((cnt + m - 1) div m), cnt))"
proof -
  define q where "q = (cnt + m - 1) div m"
  define nb where "nb = min T q"
  have z: "- (2 ^ (w - 1)) \<le> (0::int)" by simp
  note qb = quotient_bounds [OF a(1,2), folded q_def]
  have 1: "iadd w cnt m = cnt + m" using a r z by (intro iadd_id) linarith+
  have 2: "isub w (cnt + m) 1 = cnt + m - 1" using a r z by (intro isub_id) linarith+
  have 3: "idiv w (cnt + m - 1) m = q" unfolding q_def using a r by (intro idiv_id) linarith+
  have 4: "wrap 32 q = q" using qb(1) r(4) by (intro wrap_id) (simp_all add: q_def)
  have nbq: "min T (wrap 32 (idiv w (isub w (iadd w cnt m) 1) m)) = nb"
    by (simp add: 1 2 3 4 nb_def)
  show ?thesis
  proof (cases "1 < nb")
    case True
    have nbT: "nb \<le> T" by (simp add: nb_def)
    have 5: "iadd w cnt nb = cnt + nb" using a r z True nbT by (intro iadd_id) linarith+
    have 6: "isub w (cnt + nb) 1 = cnt + nb - 1" using a r z True nbT by (intro isub_id) linarith+
    have 7: "idiv w (cnt + nb - 1) nb = (cnt + nb - 1) div nb"
      using a r True nbT by (intro idiv_id) linarith+
    have nb1: "1 \<le> nb" using True by simp
    note tb = quotient_bounds(1,2) [OF a(1) nb1]
    have 8: "SIZE_ALIGNED w A ((cnt + nb - 1) div nb) = A * (((cnt + nb - 1) div nb + A - 1) div A)"
      using a tb r by (intro SIZE_ALIGNED_exact) linarith+
    show ?thesis
      unfolding BlockInfo_def Let_def nbq using True
      by (simp add: 5 6 7 8 nb_def [symmetric] q_def [symmetric])
  next
    case False
    show ?thesis
      unfolding BlockInfo_def Let_def nbq using False
      by (simp add: nb_def [symmetric] q_def [symmetric])
  qed
qed

lemma BlockInfo_nblock:
  assumes "32 \<le> w" "0 \<le> cnt" "1 \<le> m" "1 \<le> T" "1 \<le> A"
    "cnt + m < 2 ^ (w - 1)" "cnt + T < 2 ^ (w - 1)" "cnt + A < 2 ^ (w - 1)"
    "(cnt + m - 1) div m < 2 ^ 31"
  shows "fst (BlockInfo w T A cnt m) = min T ((cnt + m - 1) div m)"
  by (simp add: BlockInfo_exact [OF assms])

lemma BlockInfo_size:
  assumes "32 \<le> w" "0 \<le> cnt" "1 \<le> m" "1 \<le> T" "1 \<le> A"
    "cnt + m < 2 ^ (w - 1)" "cnt + T < 2 ^ (w - 1)" "cnt + A < 2 ^ (w - 1)"
    "(cnt + m - 1) div m < 2 ^ 31"
  shows "snd (BlockInfo w T A cnt m) =
     (if 1 < fst (BlockInfo w T A cnt m)
      then A * (((cnt + fst (BlockInfo w T A cnt m) - 1) div fst (BlockInfo w T A cnt m) + A - 1) div A)
      else cnt)"
  by (auto simp add: BlockInfo_exact [OF assms])

lemma BlockInfo_nonneg:
  assumes "32 \<le> w" "0 \<le> cnt" "1 \<le> m" "1 \<le> T" "1 \<le> A"
    "cnt + m < 2 ^ (w - 1)" "cnt + T < 2 ^ (w - 1)" "cnt + A < 2 ^ (w - 1)"
    "(cnt + m - 1) div m < 2 ^ 31"
  shows "0 \<le> fst (BlockInfo w T A cnt m)" "fst (BlockInfo w T A cnt m) \<le> T"
    "(fst (BlockInfo w T A cnt m) = 0) = (cnt = 0)"
proof -
  have e: "fst (BlockInfo w T A cnt m) = min T ((cnt + m - 1) div m)"
    by (rule BlockInfo_nblock [OF assms])
  note qb = quotient_bounds [OF assms(2,3)]
  show "0 \<le> fst (BlockInfo w T A cnt m)" using e qb(1) assms by simp
  show "fst (BlockInfo w T A cnt m) \<le> T" using e by simp
  show "(fst (BlockInfo w T A cnt m) = 0) = (cnt = 0)"
    using e qb(3,4) assms by (cases "cnt = 0") auto
qed

lemma BlockInfo_cover:
  assumes "32 \<le> w" "0 \<le> cnt" "1 \<le> m" "1 \<le> T" "1 \<le> A"
    "cnt + m < 2 ^ (w - 1)" "cnt + T < 2 ^ (w - 1)" "cnt + A < 2 ^ (w - 1)"
    "(cnt + m - 1) div m < 2 ^ 31"
  shows "cnt \<le> fst (BlockInfo w T A cnt m) * snd (BlockInfo w T A cnt m)"
    "fst (BlockInfo w T A cnt m) * snd (BlockInfo w T A cnt m) \<le> cnt + T * A"
    "0 \<le> snd (BlockInfo w T A cnt m)"
proof -
  let ?nb = "fst (BlockInfo w T A cnt m)" and ?bs = "snd (BlockInfo w T A cnt m)"
  note nn = BlockInfo_nonneg [OF assms]
  note sz = BlockInfo_size [OF assms]
  have TA: "0 \<le> T * A" using assms by simp
  have c: "cnt \<le> ?nb * ?bs \<and> ?nb * ?bs \<le> cnt + T * A \<and> 0 \<le> ?bs"
  proof (cases "1 < ?nb")
    case True
    let ?q = "(cnt + ?nb - 1) div ?nb"
    have nb: "0 < ?nb" "1 \<le> ?nb" using True by simp_all
    note qb = quotient_bounds [OF assms(2) nb(2)]
    note ru = roundup_props [OF assms(5) qb(1)]
    have bs: "?bs = A * ((?q + A - 1) div A)" using True sz by simp
    have "cnt \<le> ?nb * ?q" by (rule qb(5))
    also have "\<dots> \<le> ?nb * ?bs" unfolding bs using ru(2) nb by (intro mult_left_mono) simp_all
    finally have 1: "cnt \<le> ?nb * ?bs" .
    have "?bs \<le> ?q + (A - 1)" unfolding bs using ru(3) by simp
    then have "?nb * ?bs \<le> ?nb * (?q + (A - 1))" using nb by (intro mult_left_mono) simp_all
    also have "\<dots> = ?nb * ?q + ?nb * (A - 1)" by (simp add: algebra_simps)
    also have "\<dots> \<le> (cnt + ?nb - 1) + ?nb * (A - 1)" using qb(6) by simp
    also have "\<dots> = cnt - 1 + ?nb * A" by (simp add: algebra_simps)
    also have "\<dots> \<le> cnt - 1 + T * A" using nn(2) assms(5) by (simp add: mult_right_mono)
    finally have 2: "?nb * ?bs \<le> cnt + T * A" by simp
    have 3: "0 \<le> ?bs" unfolding bs using ru(4) assms(5) by simp
    show ?thesis using 1 2 3 by simp
  next
    case False
    then have bs: "?bs = cnt" using sz by simp
    have "?nb = 1 \<or> (?nb = 0 \<and> cnt = 0)" using False nn by linarith
    then show ?thesis using bs assms(2) TA by auto
  qed
  show "cnt \<le> ?nb * ?bs" "?nb * ?bs \<le> cnt + T * A" "0 \<le> ?bs" using c by simp_all
qed

lemma block_positive:
  assumes "32 \<le> w" "0 < cnt" "1 \<le> m" "1 \<le> T" "1 \<le> A"
    "cnt + m < 2 ^ (w - 1)" "cnt + T < 2 ^ (w - 1)" "cnt + A < 2 ^ (w - 1)"
    "(cnt + m - 1) div m < 2 ^ 31"
  shows "0 < fst (BlockInfo w T A cnt m)" "0 < snd (BlockInfo w T A cnt m)"
proof -
  let ?nb = "fst (BlockInfo w T A cnt m)" and ?bs = "snd (BlockInfo w T A cnt m)"
  have c: "0 \<le> cnt" using assms by simp
  show nb: "0 < ?nb"
    using BlockInfo_nonneg(1,3) [OF assms(1) c assms(3-9)] assms(2) by linarith
  have "cnt \<le> ?nb * ?bs" by (rule BlockInfo_cover(1) [OF assms(1) c assms(3-9)])
  then have "0 < ?nb * ?bs" using assms(2) by linarith
  then show "0 < ?bs" using nb by (simp add: zero_less_mult_iff)
qed

text \<open>
  Claim C5, for counts that the index type can hold with room for the rounding. Let \<open>w \<ge> 32\<close>
  be the width of the index type, \<open>cnt \<ge> 0\<close> the count, \<open>m \<ge> 1\<close> the minimum block size,
  \<open>T \<ge> 1\<close> the thread count and \<open>A \<ge> 1\<close> the alignment, and let \<open>cnt + m\<close>, \<open>cnt + T\<close> and
  \<open>cnt + A\<close> be values of the index type and \<open>\<lceil>cnt / m\<rceil>\<close> a value of \<open>int\<close>. Then \<open>BlockInfo\<close>
  returns \<open>num_blocks = min T \<lceil>cnt / m\<rceil>\<close>; with one block the block size is \<open>cnt\<close>; with more
  than one block the block size is \<open>\<lceil>cnt / num_blocks\<rceil>\<close> rounded up to the next multiple of
  \<open>A\<close>; and always \<open>num_blocks * block_size \<ge> cnt\<close> and \<open>num_blocks \<le> T\<close>.
\<close>

theorem BlockInfo_postcondition:
  assumes "32 \<le> w" "0 \<le> cnt" "1 \<le> m" "1 \<le> T" "1 \<le> A"
    and "cnt + m < 2 ^ (w - 1)" "cnt + T < 2 ^ (w - 1)" "cnt + A < 2 ^ (w - 1)"
    and "\<lceil>real_of_int cnt / real_of_int m\<rceil> < 2 ^ 31"
  shows "fst (BlockInfo w T A cnt m) = min T \<lceil>real_of_int cnt / real_of_int m\<rceil>
    \<and> (fst (BlockInfo w T A cnt m) = 1 \<longrightarrow> snd (BlockInfo w T A cnt m) = cnt)
    \<and> (1 < fst (BlockInfo w T A cnt m) \<longrightarrow>
          A dvd snd (BlockInfo w T A cnt m)
          \<and> \<lceil>real_of_int cnt / real_of_int (fst (BlockInfo w T A cnt m))\<rceil>
               \<le> snd (BlockInfo w T A cnt m)
          \<and> snd (BlockInfo w T A cnt m)
               < \<lceil>real_of_int cnt / real_of_int (fst (BlockInfo w T A cnt m))\<rceil> + A)
    \<and> cnt \<le> fst (BlockInfo w T A cnt m) * snd (BlockInfo w T A cnt m)
    \<and> fst (BlockInfo w T A cnt m) \<le> T"
proof -
  let ?nb = "fst (BlockInfo w T A cnt m)" and ?bs = "snd (BlockInfo w T A cnt m)"
  have m: "0 < m" using assms by simp
  have q: "(cnt + m - 1) div m < 2 ^ 31" using assms(9) by (simp add: ceiling_div [OF m])
  note h = assms(1-8) q
  have 1: "?nb = min T \<lceil>real_of_int cnt / real_of_int m\<rceil>"
    by (simp add: BlockInfo_nblock [OF h] ceiling_div [OF m])
  have 2: "?nb = 1 \<longrightarrow> ?bs = cnt" by (simp add: BlockInfo_size [OF h])
  have 3: "A dvd ?bs \<and> \<lceil>real_of_int cnt / real_of_int ?nb\<rceil> \<le> ?bs
             \<and> ?bs < \<lceil>real_of_int cnt / real_of_int ?nb\<rceil> + A" if nb: "1 < ?nb"
  proof -
    let ?q = "(cnt + ?nb - 1) div ?nb"
    have nb0: "0 < ?nb" "1 \<le> ?nb" using nb by simp_all
    have c: "\<lceil>real_of_int cnt / real_of_int ?nb\<rceil> = ?q" by (rule ceiling_div [OF nb0(1)])
    have q0: "0 \<le> ?q" by (rule quotient_bounds(1) [OF assms(2) nb0(2)])
    have bs: "?bs = A * ((?q + A - 1) div A)" using nb by (simp add: BlockInfo_size [OF h])
    show ?thesis unfolding c bs using roundup_props [OF assms(5) q0] by simp
  qed
  have 4: "cnt \<le> ?nb * ?bs" by (rule BlockInfo_cover(1) [OF h])
  have 5: "?nb \<le> T" by (rule BlockInfo_nonneg(2) [OF h])
  show ?thesis using 1 2 3 4 5 by blast
qed

lemma BlockInfo_5000: "BlockInfo 32 4 32 5000 1024 = (4, 1280)"
  by (simp add: BlockInfo_def SIZE_ALIGNED_def iadd_def isub_def imul_def idiv_def wrap_def
      signed_divide_int_def Let_def)

theorem BlockInfo_postcondition_witness:
  "BlockInfo 32 4 32 5000 1024 = (4, 1280)
   \<and> fst (BlockInfo 32 4 32 5000 1024) = min 4 \<lceil>real_of_int 5000 / real_of_int 1024\<rceil>
   \<and> (32::int) dvd snd (BlockInfo 32 4 32 5000 1024)
   \<and> \<lceil>real_of_int 5000 / real_of_int (fst (BlockInfo 32 4 32 5000 1024))\<rceil>
        \<le> snd (BlockInfo 32 4 32 5000 1024)
   \<and> snd (BlockInfo 32 4 32 5000 1024)
        < \<lceil>real_of_int 5000 / real_of_int (fst (BlockInfo 32 4 32 5000 1024))\<rceil> + 32
   \<and> 5000 \<le> fst (BlockInfo 32 4 32 5000 1024) * snd (BlockInfo 32 4 32 5000 1024)
   \<and> fst (BlockInfo 32 4 32 5000 1024) \<le> 4"
proof -
  have c: "\<lceil>real_of_int 5000 / real_of_int 1024\<rceil> = 5"
    using ceiling_div [of 1024 5000] by simp
  have "1 < fst (BlockInfo 32 4 32 5000 1024)" by (simp add: BlockInfo_5000)
  with BlockInfo_postcondition [of 32 5000 1024 4 32] BlockInfo_5000 c show ?thesis by simp
qed

text \<open>
  Claim C5 as stated covers every count of the index type. For the largest \<open>data_size_t\<close>
  and the minimum block size \<open>1024\<close> the sum \<open>cnt + min_cnt_per_block\<close> overflows and the
  block count comes out negative; for a 64-bit count of \<open>2 ^ 42\<close> the quotient \<open>2 ^ 32\<close> is
  narrowed to the \<open>int\<close> \<open>0\<close>. In both cases \<open>min T \<lceil>cnt / m\<rceil>\<close> is \<open>4\<close>, and
  \<open>num_blocks * block_size\<close> is below the count.
\<close>

theorem BlockInfo_overflow_counterexample:
  "BlockInfo 32 4 32 2147483647 1024 = (- 2097151, 2147483647)
   \<and> min 4 \<lceil>real_of_int 2147483647 / real_of_int 1024\<rceil> = 4
   \<and> fst (BlockInfo 32 4 32 2147483647 1024) * snd (BlockInfo 32 4 32 2147483647 1024)
        < 2147483647
   \<and> BlockInfo 64 4 32 4398046511104 1024 = (0, 4398046511104)
   \<and> min 4 \<lceil>real_of_int 4398046511104 / real_of_int 1024\<rceil> = 4
   \<and> fst (BlockInfo 64 4 32 4398046511104 1024) * snd (BlockInfo 64 4 32 4398046511104 1024)
        < 4398046511104"
proof -
  have 1: "BlockInfo 32 4 32 2147483647 1024 = (- 2097151, 2147483647)"
    by (simp add: BlockInfo_def SIZE_ALIGNED_def iadd_def isub_def imul_def idiv_def wrap_def
        signed_divide_int_def Let_def)
  have 2: "BlockInfo 64 4 32 4398046511104 1024 = (0, 4398046511104)"
    by (simp add: BlockInfo_def SIZE_ALIGNED_def iadd_def isub_def imul_def idiv_def wrap_def
        signed_divide_int_def Let_def)
  have 3: "\<lceil>real_of_int 2147483647 / real_of_int 1024\<rceil> = 2097152"
    using ceiling_div [of 1024 2147483647] by simp
  have 4: "\<lceil>real_of_int 4398046511104 / real_of_int 1024\<rceil> = 4294967296"
    using ceiling_div [of 1024 4398046511104] by simp
  show ?thesis unfolding 1 2 3 4 by simp
qed

lemma bindR_Inr [simp]: "bindR (Inr x) f = f x"
  by (simp add: bindR_def)

lemma bindR_Inl [simp]: "bindR (Inl e) f = Inl e"
  by (simp add: bindR_def)

lemma bindR_eq_Inr: "(bindR m f = Inr y) = (\<exists>x. m = Inr x \<and> f x = Inr y)"
  by (cases m) simp_all

lemma foldR_append: "foldR f (xs @ ys) s = bindR (foldR f xs s) (foldR f ys)"
  by (induction xs arbitrary: s) (simp_all add: bindR_def split: sum.splits)

lemma foldR_map: "foldR f (map g xs) s = foldR (\<lambda>x. f (g x)) xs s"
  by (induction xs arbitrary: s) (simp_all add: bindR_def split: sum.splits)

lemma foldR_cong:
  "(\<And>x s. x \<in> set xs \<Longrightarrow> f x s = g x s) \<Longrightarrow> foldR f xs s = foldR g xs s"
  by (induction xs arbitrary: s) (simp_all add: bindR_def split: sum.splits)

lemma foldR_single: "foldR f [x] s = f x s"
  by (cases "f x s") simp_all

lemma foldR_snoc: "foldR f xs s = Inr s' \<Longrightarrow> foldR f (xs @ [x]) s = f x s'"
  by (simp only: foldR_append bindR_Inr foldR_single)

lemma CaptureException_simps [simp]:
  "CaptureException None ex = ex" "CaptureException (Some e) ex = Some e"
  by (simp_all add: CaptureException_def)

lemma capture_loop_returns:
  "foldR (\<lambda>x (h, s). bindR (returns (g x s)) (\<lambda>(ex, s'). Inr (CaptureException h ex, s')))
     xs (h0, s)
   = bindR (foldR g xs s) (\<lambda>s'. Inr (h0, s'))"
proof (induction xs arbitrary: s)
  case Nil
  show ?case by simp
next
  case (Cons x xs)
  show ?case
  proof (cases "g x s")
    case (Inl e)
    then show ?thesis by (simp add: returns_def)
  next
    case (Inr s1)
    then show ?thesis using Cons by (cases h0) (simp_all add: returns_def)
  qed
qed


lemma For_blocks:
  assumes bi: "BlockInfo w T A (e - start) m = (nb, bs)"
    and d: "- (2 ^ (w - 1)) \<le> e - start" "e - start < 2 ^ (w - 1)"
    and rng: "0 \<le> bs" "- (2 ^ (w - 1)) \<le> start" "start + nb * bs < 2 ^ (w - 1)"
      "nb * bs < 2 ^ (w - 1)"
  shows "For w T A start e m f s =
     bindR (foldR (\<lambda>(i, a, b) (h, s).
                bindR (f i a b s) (\<lambda>(ex, s'). Inr (CaptureException h ex, s')))
              (map (\<lambda>i. (i, start + i * bs, min e (start + (i + 1) * bs)))
                 (map int [0..<nat nb])) (None, s))
       (\<lambda>(h, s'). Inr (case h of None \<Rightarrow> Inr nb | Some x \<Rightarrow> Inl x, s'))"
proof -
  have z: "- (2 ^ (w - 1)) \<le> (0::int)" by simp
  have 0: "isub w e start = e - start" using d by (rule isub_id)
  have body: "(\<lambda>(h, s).
        let inner_start = iadd w start (imul w bs x);
            inner_end = min e (iadd w inner_start bs)
        in bindR (f x inner_start inner_end s) (\<lambda>(ex, s'). Inr (CaptureException h ex, s'))) hs
      = (\<lambda>(h, s). bindR (f x (start + x * bs) (min e (start + (x + 1) * bs)) s)
           (\<lambda>(ex, s'). Inr (CaptureException h ex, s'))) hs"
    if x: "x \<in> set (map int [0..<nat nb])" for x hs
  proof -
    have xb: "0 \<le> x" "x + 1 \<le> nb" using x by auto
    have "x * bs \<le> nb * bs" "(x + 1) * bs \<le> nb * bs"
      using xb rng(1) by (simp_all add: mult_right_mono)
    moreover have "0 \<le> x * bs" using xb rng(1) by simp
    moreover have "(x + 1) * bs = x * bs + bs" by (simp add: algebra_simps)
    ultimately have b: "0 \<le> x * bs" "x * bs < 2 ^ (w - 1)" "- (2 ^ (w - 1)) \<le> start + x * bs"
      "start + x * bs < 2 ^ (w - 1)" "- (2 ^ (w - 1)) \<le> start + x * bs + bs"
      "start + x * bs + bs < 2 ^ (w - 1)"
      using rng z by linarith+
    have "wrap w (x * bs) = x * bs" using b(1,2) z by (intro wrap_id) linarith+
    then have 1: "imul w bs x = x * bs" by (simp add: imul_def mult.commute)
    have 2: "iadd w start (x * bs) = start + x * bs" using b(3,4) by (rule iadd_id)
    have 3: "iadd w (start + x * bs) bs = start + (x + 1) * bs"
      using b(5,6) by (simp add: iadd_id algebra_simps)
    show ?thesis by (simp add: Let_def 1 2 3)
  qed
  have loop: "foldR (\<lambda>i (h, s).
        let inner_start = iadd w start (imul w bs i);
            inner_end = min e (iadd w inner_start bs)
        in bindR (f i inner_start inner_end s) (\<lambda>(ex, s'). Inr (CaptureException h ex, s')))
      (map int [0..<nat nb]) (None, s)
      = foldR (\<lambda>i (h, s). bindR (f i (start + i * bs) (min e (start + (i + 1) * bs)) s)
           (\<lambda>(ex, s'). Inr (CaptureException h ex, s')))
      (map int [0..<nat nb]) (None, s)"
    by (rule foldR_cong) (rule body)
  show ?thesis
    unfolding For_def 0 bi Let_def prod.case loop [unfolded Let_def]
    by (simp add: foldR_map comp_def)
qed





lemma BlockInfo_zero:
  assumes "1 \<le> m" "1 \<le> T"
  shows "BlockInfo w T A 0 m = (0, 0)"
  using assms by (simp add: BlockInfo_def first_quotient_zero Let_def)

lemma For_no_block:
  assumes "1 \<le> m" "1 \<le> T"
  shows "For w T A start start m f s = Inr (Inr 0, s)"
  by (simp add: For_def isub_def BlockInfo_zero [OF assms])

lemma Split_empty_leaf:
  assumes "1 \<le> T"
    and "0 \<le> leaf" "leaf < int (length (leaf_begin s))" "leaf < int (length (leaf_count s))"
    and "leaf_count s ! nat leaf = 0"
    and "left_write_pos_buf s \<noteq> []" "right_write_pos_buf s \<noteq> []"
  shows "Split T A leaf orc right_leaf s = Inl (OutOfRange ''left_write_pos_buf_'' (- 1))"
proof -
  have m: "isub 32 0 1 = - 1" by (simp add: isub_def wrap_def)
  show ?thesis
    using assms(2-7) by (simp add: Split_def vec_get_def vec_set_def For_no_block [OF _ assms(1)] m)
qed

text \<open>
  Claim C10. On a range of length zero \<open>BlockInfo\<close> yields zero blocks, \<open>Threading::For\<close>
  never calls its body (the state comes back unchanged whatever the body is, and a recording
  body records nothing) and returns \<open>0\<close>, not \<open>1\<close>. \<open>DataPartition::Split\<close> then reads
  \<open>left_write_pos_buf_[nblock - 1]\<close>: on an empty leaf this is the index \<open>-1\<close>.
\<close>

theorem For_empty_range:
  assumes "1 \<le> m" "1 \<le> T"
    and "0 \<le> leaf" "leaf < int (length (leaf_begin s))" "leaf < int (length (leaf_count s))"
    and "leaf_count s ! nat leaf = 0"
    and "left_write_pos_buf s \<noteq> []" "right_write_pos_buf s \<noteq> []"
  shows "fst (BlockInfo w T A 0 m) = 0
    \<and> For w T A start start m f s' = Inr (Inr 0, s')
    \<and> For w T A start start m (\<lambda>i a b calls. Inr (None, calls @ [(i, a, b)])) [] = Inr (Inr 0, [])
    \<and> Split T A leaf orc right_leaf s = Inl (OutOfRange ''left_write_pos_buf_'' (- 1))"
proof -
  have nb: "fst (BlockInfo w T A 0 m) = 0"
    by (simp add: BlockInfo_zero [OF assms(1,2)])
  show ?thesis
    using nb For_no_block [OF assms(1,2), of w A start f s']
      For_no_block [OF assms(1,2), of w A start "\<lambda>i a b calls. Inr (None, calls @ [(i, a, b)])" "[]"]
      Split_empty_leaf [OF assms(2-8), of A orc right_leaf]
    by simp
qed

theorem For_empty_range_witness:
  "fst (BlockInfo 32 2 32 0 1024) = 0
   \<and> For 32 2 32 7 7 1024 (\<lambda>i a b (u::unit). Inl (OutOfRange ''body'' i)) () = Inr (Inr 0, ())
   \<and> For 32 2 32 7 7 1024 (\<lambda>i a b (u::unit). Inr (Some ''failure'', u)) () = Inr (Inr 0, ())
   \<and> Split 2 32 0 (\<lambda>xs k. even (xs ! k)) 1 (DataPartition_new 2 0 2)
       = Inl (OutOfRange ''left_write_pos_buf_'' (- 1))"
  using For_empty_range [of 1024 2 0 "DataPartition_new 2 0 2" 32 32 7
      "\<lambda>i a b (u::unit). Inl (OutOfRange ''body'' i)" "()" "\<lambda>xs k. even (xs ! k)" 1]
    For_empty_range [of 1024 2 0 "DataPartition_new 2 0 2" 32 32 7
      "\<lambda>i a b (u::unit). Inr (Some ''failure'', u)" "()" "\<lambda>xs k. even (xs ! k)" 1]
  by (simp add: DataPartition_new_def)

text \<open>
  Claim C8. \<open>allocate n\<close> raises the length error exactly when \<open>n\<close> exceeds \<open>max_size()\<close>,
  which is \<open>SIZE_MAX / sizeof(T)\<close>; otherwise, for \<open>n \<noteq> 0\<close>, it raises \<open>bad_alloc\<close> when
  \<open>_mm_malloc\<close> returns \<open>NULL\<close> and returns the pointer of \<open>_mm_malloc\<close> when it does not;
  for \<open>n = 0\<close> it returns \<open>NULL\<close> without raising. Below \<open>max_size()\<close> the byte count
  \<open>n * sizeof(T)\<close> handed to \<open>_mm_malloc\<close> does not wrap around.
\<close>

theorem allocate_error_behaviour:
  "(allocate mm sz al n = Inl length_error \<longleftrightarrow> n > max_size sz)
   \<and> (n \<le> max_size sz \<and> n \<noteq> 0 \<and> mm (n * sz) al = 0 \<longrightarrow> allocate mm sz al n = Inl bad_alloc)
   \<and> (n \<le> max_size sz \<and> n \<noteq> 0 \<and> mm (n * sz) al \<noteq> 0
        \<longrightarrow> allocate mm sz al n = Inr (mm (n * sz) al))
   \<and> allocate mm sz al 0 = Inr 0
   \<and> (sz \<noteq> 0 \<longrightarrow> unat (max_size sz) = (2 ^ 64 - 1) div unat sz)
   \<and> (sz \<noteq> 0 \<and> n \<le> max_size sz \<longrightarrow> unat (n * sz) = unat n * unat sz)"
proof -
  have 1: "(allocate mm sz al n = Inl length_error) = (n > max_size sz)"
    by (auto simp: allocate_def Let_def)
  have 2: "n \<le> max_size sz \<and> n \<noteq> 0 \<and> mm (n * sz) al = 0 \<longrightarrow> allocate mm sz al n = Inl bad_alloc"
    by (auto simp: allocate_def Let_def)
  have 3: "n \<le> max_size sz \<and> n \<noteq> 0 \<and> mm (n * sz) al \<noteq> 0
        \<longrightarrow> allocate mm sz al n = Inr (mm (n * sz) al)"
    by (auto simp: allocate_def Let_def)
  have 4: "allocate mm sz al 0 = Inr 0" by (simp add: allocate_def)
  have m: "unat (max_size sz) = (2 ^ 64 - 1) div unat sz"
  proof -
    have "unat (0 - 1 :: size_t) = 2 ^ 64 - 1" by (simp add: unsigned_minus_1_eq_mask mask_eq_exp_minus_1)
    then show ?thesis by (simp add: max_size_def unat_div)
  qed
  have 6: "unat (n * sz) = unat n * unat sz" if sz: "sz \<noteq> 0" and le: "n \<le> max_size sz"
  proof -
    have p: "0 < unat sz" using sz by (simp add: unat_gt_0)
    have "unat n \<le> (2 ^ 64 - 1) div unat sz" using le m by (simp add: word_le_nat_alt)
    then have "unat n * unat sz \<le> ((2 ^ 64 - 1) div unat sz) * unat sz" by simp
    also have "\<dots> \<le> 2 ^ 64 - 1" by simp
    finally have "unat n * unat sz < 2 ^ 64" by simp
    then show ?thesis by (simp add: unat_mult_lem [THEN iffD1])
  qed
  show ?thesis using 1 2 3 4 m 6 by blast
qed

theorem allocate_error_behaviour_witness:
  "allocate (\<lambda>n a. 4096) 4 32 (2 ^ 62) = Inl length_error
   \<and> allocate (\<lambda>n a. 0) 4 32 10 = Inl bad_alloc
   \<and> allocate (\<lambda>n a. 4096) 4 32 10 = Inr 4096
   \<and> allocate (\<lambda>n a. 0) 4 32 0 = Inr 0
   \<and> unat (max_size 4) = (2 ^ 64 - 1) div 4
   \<and> unat (10 * 4 :: size_t) = 40"
proof -
  have ms: "max_size 4 = 4611686018427387903" by (simp add: max_size_def)
  show ?thesis
    using allocate_error_behaviour [of "\<lambda>n a. 4096" 4 32 "2 ^ 62"]
      allocate_error_behaviour [of "\<lambda>n a. 0" 4 32 10]
      allocate_error_behaviour [of "\<lambda>n a. 4096" 4 32 10]
    by (simp add: ms)
qed

lemma length_put [simp]: "p + length ys \<le> length v \<Longrightarrow> length (put v p ys) = length v"
  by (simp add: put_def)

lemma put_Nil [simp]: "p \<le> length v \<Longrightarrow> put v p [] = v"
  by (simp add: put_def)

lemma take_put_before: "n \<le> p \<Longrightarrow> p \<le> length v \<Longrightarrow> take n (put v p ys) = take n v"
  by (simp add: put_def min_def)

lemma drop_put_after:
  "p + length ys \<le> n \<Longrightarrow> p + length ys \<le> length v \<Longrightarrow> drop n (put v p ys) = drop n v"
  by (simp add: put_def)

lemma slice_put_before:
  "q + n \<le> p \<Longrightarrow> p \<le> length v \<Longrightarrow> take n (drop q (put v p ys)) = take n (drop q v)"
  by (auto simp add: put_def drop_take min_def)

lemma slice_put_after:
  "p + length ys \<le> q \<Longrightarrow> p + length ys \<le> length v
     \<Longrightarrow> take n (drop q (put v p ys)) = take n (drop q v)"
  by (simp add: put_def)

lemma slice_put_extend:
  "q + n = p \<Longrightarrow> p + length ys \<le> length v
     \<Longrightarrow> take (n + length ys) (drop q (put v p ys)) = take n (drop q v) @ ys"
  by (auto simp add: put_def drop_take min_def)

lemma slice_put_same:
  "p + length ys \<le> length v \<Longrightarrow> take (length ys) (drop p (put v p ys)) = ys"
  by (simp add: put_def)

lemma write_cells_ok:
  "0 \<le> pos \<Longrightarrow> pos + int (length ys) \<le> int (length v)
     \<Longrightarrow> write_cells b v pos ys = Inr (put v (nat pos) ys)"
  by (simp add: write_cells_def)

lemma read_cells_ok:
  "0 \<le> off \<Longrightarrow> 0 \<le> n \<Longrightarrow> off + n \<le> int (length v)
     \<Longrightarrow> read_cells b v off n = Inr (take (nat n) (drop (nat off) v))"
  by (simp add: read_cells_def)

lemma read_cells_zero [simp]: "read_cells b v off 0 = Inr []"
  by (simp add: read_cells_def)

lemma vec_get_ok: "0 \<le> i \<Longrightarrow> i < int (length v) \<Longrightarrow> vec_get b v i = Inr (v ! nat i)"
  by (simp add: vec_get_def)

lemma vec_set_ok: "0 \<le> i \<Longrightarrow> i < int (length v) \<Longrightarrow> vec_set b v i x = Inr (v[nat i := x])"
  by (simp add: vec_set_def)

lemma dataset_Split_length:
  "length (fst (dataset_Split orc xs)) + length (snd (dataset_Split orc xs)) = length xs"
  using sum_length_filter_compl [of "orc xs" "[0..<length xs]"]
  by (simp add: dataset_Split_def)

lemma dataset_Split_mset:
  "mset (fst (dataset_Split orc xs)) + mset (snd (dataset_Split orc xs)) = mset xs"
proof -
  have "mset (fst (dataset_Split orc xs)) + mset (snd (dataset_Split orc xs))
      = image_mset (nth xs) (mset (filter (orc xs) [0..<length xs])
          + mset (filter (\<lambda>k. \<not> orc xs k) [0..<length xs]))"
    by (simp add: dataset_Split_def)
  also have "\<dots> = image_mset (nth xs) (mset [0..<length xs])"
    by (simp only: mset_filter multiset_partition [symmetric])
  also have "\<dots> = mset (map (nth xs) [0..<length xs])" by simp
  also have "\<dots> = mset xs" by (simp only: map_nth)
  finally show ?thesis .
qed

lemma dataset_Split_subseq:
  "subseq (fst (dataset_Split orc xs)) xs" "subseq (snd (dataset_Split orc xs)) xs"
proof -
  have "subseq (map (nth xs) (filter P [0..<length xs])) (map (nth xs) [0..<length xs])" for P
    by (intro subseq_map subseq_filter_left)
  then show "subseq (fst (dataset_Split orc xs)) xs" "subseq (snd (dataset_Split orc xs)) xs"
    by (simp_all add: dataset_Split_def map_nth)
qed

lemma dataset_Split_Nil [simp]: "dataset_Split orc [] = ([], [])"
  by (simp add: dataset_Split_def)

lemma dataset_Split_by_id:
  "dataset_Split (\<lambda>xs k. P (xs ! k)) xs = (filter P xs, filter (\<lambda>x. \<not> P x) xs)"
proof -
  have "map (nth xs) (filter (\<lambda>k. Q (xs ! k)) [0..<length xs]) = filter Q xs" for Q
  proof -
    have "map (nth xs) (filter (\<lambda>k. Q (xs ! k)) [0..<length xs])
        = filter Q (map (nth xs) [0..<length xs])"
      by (simp add: filter_map comp_def)
    then show ?thesis by (simp add: map_nth)
  qed
  then show ?thesis by (simp add: dataset_Split_def)
qed

lemma split_block_nonempty:
  assumes "i < length (offsets_buf s)" "i < length (left_cnts_buf s)" "i < length (right_cnts_buf s)"
    and "p < e" "b + e \<le> length (indices s)"
    and "e \<le> length (temp_left_indices s)" "e \<le> length (temp_right_indices s)"
    and xs: "xs = take (e - p) (drop (b + p) (indices s))"
    and l: "l = fst (dataset_Split orc xs)" and r: "r = snd (dataset_Split orc xs)"
    and r32: "int e < 2147483648"
  shows "split_block orc (int b) (int i) (int p) (int e) s =
     Inr (s\<lparr>temp_left_indices := put (temp_left_indices s) p l,
            temp_right_indices := put (temp_right_indices s) p r,
            offsets_buf := (offsets_buf s)[i := int p],
            left_cnts_buf := (left_cnts_buf s)[i := int (length l)],
            right_cnts_buf := (right_cnts_buf s)[i := int (length r)]\<rparr>)"
proof -
  have len: "length xs = e - p" using assms by (simp add: xs)
  have lr: "length l + length r = e - p"
    using dataset_Split_length [of orc xs] by (simp add: l r len)
  have rd: "read_cells ''indices_'' (indices s) (int b + int p) (int e - int p) = Inr xs"
    using assms(4,5) by (simp add: read_cells_ok xs nat_diff_distrib nat_add_distrib)
  have wl: "write_cells ''temp_left_indices_'' (temp_left_indices s) (int p) l
      = Inr (put (temp_left_indices s) p l)"
    using assms(4,6) lr by (simp add: write_cells_ok)
  have wr: "write_cells ''temp_right_indices_'' (temp_right_indices s) (int p) r
      = Inr (put (temp_right_indices s) p r)"
    using assms(4,7) lr by (simp add: write_cells_ok)
  have rc: "int e - int p - int (length l) = int (length r)" using lr assms(4) by linarith
  have c1: "isub 32 (int e) (int p) = int e - int p"
    using assms(4) r32 by (intro isub32_id) linarith+
  have c2: "isub 32 (int e - int p) (int (length l)) = int (length r)"
    using rc r32 by (simp add: isub32_id)
  show ?thesis
    using assms(1-4)
    by (simp add: split_block_def Let_def c1 rd wl wr vec_set_ok c2 split_def l [symmetric] r [symmetric])
qed

lemma split_block_empty:
  assumes "i < length (left_cnts_buf s)" "i < length (right_cnts_buf s)" "e \<le> p"
    and r32: "int p < 2147483648"
  shows "split_block orc (int b) (int i) (int p) (int e) s =
     Inr (s\<lparr>left_cnts_buf := (left_cnts_buf s)[i := 0],
            right_cnts_buf := (right_cnts_buf s)[i := 0]\<rparr>)"
proof -
  have c1: "isub 32 (int e) (int p) = int e - int p"
    using assms(3) r32 by (intro isub32_id) linarith+
  show ?thesis using assms(1-3) by (simp add: split_block_def Let_def c1 vec_set_ok)
qed


lemma block_slice_length: "length (block_slice bs parent i) \<le> bs"
  by (simp add: block_slice_def)

lemma block_slice_Nil: "length parent \<le> i * bs \<Longrightarrow> block_slice bs parent i = []"
  by (simp add: block_slice_def)

lemma block_slice_read:
  assumes "b + c \<le> length idx" "parent = take c (drop b idx)"
  shows "block_slice bs parent i = take (min c ((i + 1) * bs) - i * bs) (drop (b + i * bs) idx)"
proof -
  have c: "length parent = c" using assms by simp
  show ?thesis
    using assms(1) by (auto simp add: block_slice_def c assms(2) drop_take min_def add.commute)
qed

lemma blocks_loop:
  fixes s :: DataPartition and b c bs nb k :: nat
  assumes sz: "b + c \<le> length (indices s)" "c \<le> length (temp_left_indices s)"
      "c \<le> length (temp_right_indices s)" "nb \<le> length (offsets_buf s)"
      "nb \<le> length (left_cnts_buf s)" "nb \<le> length (right_cnts_buf s)"
    and bs: "0 < bs"
    and parent: "parent = take c (drop b (indices s))"
    and rng: "int c < 2147483648" "int (nb * bs) < 2147483648"
    and k: "k \<le> nb"
  shows "\<exists>tl tr ob lc rc.
      foldR (\<lambda>i. split_block orc (int b) (int i) (int (i * bs)) (int (min c ((i + 1) * bs))))
        [0..<k] s
        = Inr (s\<lparr>temp_left_indices := tl, temp_right_indices := tr, offsets_buf := ob,
                 left_cnts_buf := lc, right_cnts_buf := rc\<rparr>)
    \<and> length tl = length (temp_left_indices s) \<and> length tr = length (temp_right_indices s)
    \<and> length ob = length (offsets_buf s) \<and> length lc = length (left_cnts_buf s)
    \<and> length rc = length (right_cnts_buf s)
    \<and> (\<forall>i<k. lc ! i = int (length (fst (dataset_Split orc (block_slice bs parent i))))
             \<and> rc ! i = int (length (snd (dataset_Split orc (block_slice bs parent i))))
             \<and> (block_slice bs parent i \<noteq> [] \<longrightarrow>
                   ob ! i = int (i * bs)
                 \<and> take (length (fst (dataset_Split orc (block_slice bs parent i))))
                     (drop (i * bs) tl) = fst (dataset_Split orc (block_slice bs parent i))
                 \<and> take (length (snd (dataset_Split orc (block_slice bs parent i))))
                     (drop (i * bs) tr) = snd (dataset_Split orc (block_slice bs parent i))))
    \<and> (\<forall>i. k \<le> i \<or> block_slice bs parent i = [] \<longrightarrow> ob ! i = offsets_buf s ! i)"
  using k
proof (induction k)
  case 0
  show ?case
    by (rule exI [of _ "temp_left_indices s"], rule exI [of _ "temp_right_indices s"],
        rule exI [of _ "offsets_buf s"], rule exI [of _ "left_cnts_buf s"],
        rule exI [of _ "right_cnts_buf s"]) simp
next
  case (Suc k)
  let ?L = "\<lambda>i. fst (dataset_Split orc (block_slice bs parent i))"
  let ?R = "\<lambda>i. snd (dataset_Split orc (block_slice bs parent i))"
  let ?body = "\<lambda>i. split_block orc (int b) (int i) (int (i * bs)) (int (min c ((i + 1) * bs)))"
  have kle: "k \<le> nb" using Suc.prems by simp
  from Suc.IH [OF kle] obtain tl tr ob lc rc where
    run: "foldR ?body [0..<k] s
        = Inr (s\<lparr>temp_left_indices := tl, temp_right_indices := tr, offsets_buf := ob,
                 left_cnts_buf := lc, right_cnts_buf := rc\<rparr>)"
    and len: "length tl = length (temp_left_indices s)" "length tr = length (temp_right_indices s)"
      "length ob = length (offsets_buf s)" "length lc = length (left_cnts_buf s)"
      "length rc = length (right_cnts_buf s)"
    and inv: "\<And>i. i < k \<Longrightarrow> lc ! i = int (length (?L i)) \<and> rc ! i = int (length (?R i))
             \<and> (block_slice bs parent i \<noteq> [] \<longrightarrow>
                   ob ! i = int (i * bs)
                 \<and> take (length (?L i)) (drop (i * bs) tl) = ?L i
                 \<and> take (length (?R i)) (drop (i * bs) tr) = ?R i)"
    and inv2: "\<And>i. k \<le> i \<or> block_slice bs parent i = [] \<Longrightarrow> ob ! i = offsets_buf s ! i"
    by (elim exE conjE) blast
  let ?sk = "s\<lparr>temp_left_indices := tl, temp_right_indices := tr, offsets_buf := ob,
                 left_cnts_buf := lc, right_cnts_buf := rc\<rparr>"
  have kn: "k < nb" using Suc.prems by simp
  have lenLR: "length (?L i) + length (?R i) = length (block_slice bs parent i)" for i
    by (rule dataset_Split_length)
  have lenL: "length (?L i) \<le> bs" "length (?R i) \<le> bs" for i
    using lenLR [of i] block_slice_length [of bs parent i] by linarith+
  have step: "foldR ?body [0..<Suc k] s = ?body k ?sk"
    using foldR_snoc [OF run, of k] by (simp only: upt_Suc_append [OF le0])
  show ?case
  proof (cases "k * bs < c")
    case True
    define p where "p = k * bs"
    define e where "e = min c ((k + 1) * bs)"
    have pe: "p < e" using True bs by (simp add: p_def e_def)
    have ec: "e \<le> c" by (simp add: e_def)
    have e32: "int e < 2147483648" using ec rng(1) by linarith
    have sl: "block_slice bs parent k = take (e - p) (drop (b + p) (indices s))"
      unfolding p_def e_def by (rule block_slice_read [OF sz(1) parent])
    have lr: "length (?L k) + length (?R k) = e - p"
      using lenLR [of k] sz(1) ec pe by (simp add: sl)
    have res0: "split_block orc (int b) (int k) (int p) (int e) ?sk
        = Inr (?sk\<lparr>temp_left_indices := put (temp_left_indices ?sk) p (?L k),
                 temp_right_indices := put (temp_right_indices ?sk) p (?R k),
                 offsets_buf := (offsets_buf ?sk)[k := int p],
                 left_cnts_buf := (left_cnts_buf ?sk)[k := int (length (?L k))],
                 right_cnts_buf := (right_cnts_buf ?sk)[k := int (length (?R k))]\<rparr>)"
      using kn sz len pe ec sl e32
      by (intro split_block_nonempty [where xs = "block_slice bs parent k"]) simp_all
    have res: "?body k ?sk
        = Inr (s\<lparr>temp_left_indices := put tl p (?L k), temp_right_indices := put tr p (?R k),
                 offsets_buf := ob[k := int p], left_cnts_buf := lc[k := int (length (?L k))],
                 right_cnts_buf := rc[k := int (length (?R k))]\<rparr>)"
      using res0 unfolding p_def e_def by simp
    have ne: "block_slice bs parent k \<noteq> []" using lr pe by auto
    have pl: "p + length (?L k) \<le> length tl" "p + length (?R k) \<le> length tr"
      using lr pe ec sz len by linarith+
    have old: "take (length (?L i)) (drop (i * bs) (put tl p (?L k))) = take (length (?L i)) (drop (i * bs) tl)
        \<and> take (length (?R i)) (drop (i * bs) (put tr p (?R k))) = take (length (?R i)) (drop (i * bs) tr)"
      if "i < k" for i
    proof -
      have "Suc i \<le> k" using that by simp
      then have "Suc i * bs \<le> k * bs" by (rule mult_le_mono1)
      then have "i * bs + length (?L i) \<le> p" "i * bs + length (?R i) \<le> p"
        using lenL [of i] by (simp_all add: p_def)
      then show ?thesis using pl by (simp add: slice_put_before)
    qed
    have S: "foldR ?body [0..<Suc k] s
        = Inr (s\<lparr>temp_left_indices := put tl p (?L k), temp_right_indices := put tr p (?R k),
                 offsets_buf := ob[k := int p], left_cnts_buf := lc[k := int (length (?L k))],
                 right_cnts_buf := rc[k := int (length (?R k))]\<rparr>)"
      by (simp only: step res)
    have L1: "length (put tl p (?L k)) = length (temp_left_indices s)" using pl len by simp
    have L2: "length (put tr p (?R k)) = length (temp_right_indices s)" using pl len by simp
    have L3: "length (ob[k := int p]) = length (offsets_buf s)" using len by simp
    have L4: "length (lc[k := int (length (?L k))]) = length (left_cnts_buf s)" using len by simp
    have L5: "length (rc[k := int (length (?R k))]) = length (right_cnts_buf s)" using len by simp
    have I: "\<forall>i<Suc k. lc[k := int (length (?L k))] ! i = int (length (?L i))
             \<and> rc[k := int (length (?R k))] ! i = int (length (?R i))
             \<and> (block_slice bs parent i \<noteq> [] \<longrightarrow>
                   ob[k := int p] ! i = int (i * bs)
                 \<and> take (length (?L i)) (drop (i * bs) (put tl p (?L k))) = ?L i
                 \<and> take (length (?R i)) (drop (i * bs) (put tr p (?R k))) = ?R i)"
    proof (intro allI impI)
      fix i assume "i < Suc k"
      then consider "i = k" | "i < k" by linarith
      then show "lc[k := int (length (?L k))] ! i = int (length (?L i))
             \<and> rc[k := int (length (?R k))] ! i = int (length (?R i))
             \<and> (block_slice bs parent i \<noteq> [] \<longrightarrow>
                   ob[k := int p] ! i = int (i * bs)
                 \<and> take (length (?L i)) (drop (i * bs) (put tl p (?L k))) = ?L i
                 \<and> take (length (?R i)) (drop (i * bs) (put tr p (?R k))) = ?R i)"
      proof cases
        case 1
        then show ?thesis using kn sz len pl by (simp add: slice_put_same p_def [symmetric])
      next
        case 2
        then show ?thesis using inv [of i] old [of i] kn sz len by simp
      qed
    qed
    have J: "\<forall>i. Suc k \<le> i \<or> block_slice bs parent i = [] \<longrightarrow>
        ob[k := int p] ! i = offsets_buf s ! i"
    proof (intro allI impI)
      fix i assume a: "Suc k \<le> i \<or> block_slice bs parent i = []"
      then have "i \<noteq> k" using ne by auto
      moreover have "k \<le> i \<or> block_slice bs parent i = []" using a by auto
      ultimately show "ob[k := int p] ! i = offsets_buf s ! i" using inv2 [of i] by simp
    qed
    show ?thesis
      apply (rule exI [of _ "put tl p (?L k)"], rule exI [of _ "put tr p (?R k)"],
        rule exI [of _ "ob[k := int p]"], rule exI [of _ "lc[k := int (length (?L k))]"],
        rule exI [of _ "rc[k := int (length (?R k))]"])
      using S L1 L2 L3 L4 L5 I J apply (intro conjI)
             apply assumption+
      done
  next
    case False
    then have e: "min c ((k + 1) * bs) \<le> k * bs" by simp
    have sl: "block_slice bs parent k = []"
      using False sz(1) by (intro block_slice_Nil) (simp add: parent)
    have "k * bs \<le> nb * bs" using kn by (intro mult_le_mono1) simp
    then have p32: "int (k * bs) < 2147483648" using rng(2) by linarith
    have res: "?body k ?sk
        = Inr (s\<lparr>temp_left_indices := tl, temp_right_indices := tr, offsets_buf := ob,
                 left_cnts_buf := lc[k := 0], right_cnts_buf := rc[k := 0]\<rparr>)"
      using split_block_empty [of k ?sk "min c ((k + 1) * bs)" "k * bs" orc b] kn sz len e p32
      by simp
    have S: "foldR ?body [0..<Suc k] s
        = Inr (s\<lparr>temp_left_indices := tl, temp_right_indices := tr, offsets_buf := ob,
                 left_cnts_buf := lc[k := 0], right_cnts_buf := rc[k := 0]\<rparr>)"
      by (simp only: step res)
    have L4: "length (lc[k := 0]) = length (left_cnts_buf s)" using len by simp
    have L5: "length (rc[k := 0]) = length (right_cnts_buf s)" using len by simp
    have I: "\<forall>i<Suc k. lc[k := 0] ! i = int (length (?L i))
             \<and> rc[k := 0] ! i = int (length (?R i))
             \<and> (block_slice bs parent i \<noteq> [] \<longrightarrow>
                   ob ! i = int (i * bs)
                 \<and> take (length (?L i)) (drop (i * bs) tl) = ?L i
                 \<and> take (length (?R i)) (drop (i * bs) tr) = ?R i)"
    proof (intro allI impI)
      fix i assume "i < Suc k"
      then consider "i = k" | "i < k" by linarith
      then show "lc[k := 0] ! i = int (length (?L i))
             \<and> rc[k := 0] ! i = int (length (?R i))
             \<and> (block_slice bs parent i \<noteq> [] \<longrightarrow>
                   ob ! i = int (i * bs)
                 \<and> take (length (?L i)) (drop (i * bs) tl) = ?L i
                 \<and> take (length (?R i)) (drop (i * bs) tr) = ?R i)"
      proof cases
        case 1
        then show ?thesis using kn sz len by (simp add: sl)
      next
        case 2
        then show ?thesis using inv [of i] kn sz len by simp
      qed
    qed
    have J: "\<forall>i. Suc k \<le> i \<or> block_slice bs parent i = [] \<longrightarrow> ob ! i = offsets_buf s ! i"
    proof (intro allI impI)
      fix i assume a: "Suc k \<le> i \<or> block_slice bs parent i = []"
      then have "k \<le> i \<or> block_slice bs parent i = []" by auto
      then show "ob ! i = offsets_buf s ! i" by (rule inv2)
    qed
    show ?thesis
      apply (rule exI [of _ tl], rule exI [of _ tr], rule exI [of _ ob],
        rule exI [of _ "lc[k := 0]"], rule exI [of _ "rc[k := 0]"])
      using S len(1,2,3) L4 L5 I J apply (intro conjI)
             apply assumption+
      done
  qed
qed

lemma sum_list_take_nth:
  fixes v :: "int list"
  assumes "\<And>i. i < j \<Longrightarrow> v ! i = int (length (F i))" "j \<le> length v"
  shows "sum_list (take j v) = int (length (concat (map F [0..<j])))"
  using assms
proof (induction j)
  case 0
  show ?case by simp
next
  case (Suc j)
  have "sum_list (take (Suc j) v) = sum_list (take j v) + v ! j"
    using Suc.prems(2) by (simp add: take_Suc_conv_app_nth)
  then show ?case using Suc by simp
qed

lemma write_pos_step_ok:
  assumes "Suc k < length (left_write_pos_buf s)" "Suc k < length (right_write_pos_buf s)"
    "k < length (left_cnts_buf s)" "k < length (right_cnts_buf s)"
  shows "write_pos_step (int (Suc k)) s =
     Inr (s\<lparr>left_write_pos_buf :=
              (left_write_pos_buf s)[Suc k := iadd 32 (left_write_pos_buf s ! k) (left_cnts_buf s ! k)],
            right_write_pos_buf :=
              (right_write_pos_buf s)[Suc k
                 := iadd 32 (right_write_pos_buf s ! k) (right_cnts_buf s ! k)]\<rparr>)"
  using assms by (simp add: write_pos_step_def vec_get_ok vec_set_ok nat_add_distrib)

lemma write_pos_loop:
  fixes s :: DataPartition
  assumes sz: "nb \<le> length (left_write_pos_buf s)" "nb \<le> length (right_write_pos_buf s)"
      "nb \<le> length (left_cnts_buf s)" "nb \<le> length (right_cnts_buf s)"
    and z: "left_write_pos_buf s ! 0 = 0" "right_write_pos_buf s ! 0 = 0"
    and rng: "\<And>j. j \<le> nb \<Longrightarrow>
        0 \<le> sum_list (take j (left_cnts_buf s)) \<and> sum_list (take j (left_cnts_buf s)) < 2147483648
      \<and> 0 \<le> sum_list (take j (right_cnts_buf s)) \<and> sum_list (take j (right_cnts_buf s)) < 2147483648"
    and k: "Suc k \<le> nb"
  shows "\<exists>lwp rwp.
      foldR (\<lambda>i. write_pos_step (int i)) [1..<Suc k] s
        = Inr (s\<lparr>left_write_pos_buf := lwp, right_write_pos_buf := rwp\<rparr>)
    \<and> length lwp = length (left_write_pos_buf s) \<and> length rwp = length (right_write_pos_buf s)
    \<and> (\<forall>j<Suc k. lwp ! j = sum_list (take j (left_cnts_buf s))
               \<and> rwp ! j = sum_list (take j (right_cnts_buf s)))"
  using k
proof (induction k)
  case 0
  show ?case
    by (rule exI [of _ "left_write_pos_buf s"], rule exI [of _ "right_write_pos_buf s"])
      (simp add: z)
next
  case (Suc k)
  from Suc obtain lwp rwp where
    run: "foldR (\<lambda>i. write_pos_step (int i)) [1..<Suc k] s
        = Inr (s\<lparr>left_write_pos_buf := lwp, right_write_pos_buf := rwp\<rparr>)"
    and len: "length lwp = length (left_write_pos_buf s)" "length rwp = length (right_write_pos_buf s)"
    and inv: "\<And>j. j < Suc k \<Longrightarrow> lwp ! j = sum_list (take j (left_cnts_buf s))
               \<and> rwp ! j = sum_list (take j (right_cnts_buf s))"
    by (auto simp del: foldR.simps upt_Suc)
  let ?sk = "s\<lparr>left_write_pos_buf := lwp, right_write_pos_buf := rwp\<rparr>"
  let ?l = "sum_list (take (Suc k) (left_cnts_buf s))"
  let ?r = "sum_list (take (Suc k) (right_cnts_buf s))"
  have kn: "Suc k < nb" using Suc.prems by simp
  have sl: "lwp ! k + left_cnts_buf s ! k = ?l" "rwp ! k + right_cnts_buf s ! k = ?r"
    using inv [of k] kn sz by (simp_all add: take_Suc_conv_app_nth)
  have v: "iadd 32 (lwp ! k) (left_cnts_buf s ! k) = ?l"
    "iadd 32 (rwp ! k) (right_cnts_buf s ! k) = ?r"
    using rng [of "Suc k"] kn sl by (simp_all add: iadd32_id)
  have step: "foldR (\<lambda>i. write_pos_step (int i)) [1..<Suc (Suc k)] s = write_pos_step (int (Suc k)) ?sk"
    using foldR_snoc [OF run, of "Suc k"] by (simp only: upt_Suc_append [of 1 "Suc k"] le_add1 [of 1 k, simplified])
  have res: "write_pos_step (int (Suc k)) ?sk
      = Inr (s\<lparr>left_write_pos_buf := lwp[Suc k := ?l], right_write_pos_buf := rwp[Suc k := ?r]\<rparr>)"
    using write_pos_step_ok [of k ?sk] kn sz len by (simp add: v)
  have S: "foldR (\<lambda>i. write_pos_step (int i)) [1..<Suc (Suc k)] s
      = Inr (s\<lparr>left_write_pos_buf := lwp[Suc k := ?l], right_write_pos_buf := rwp[Suc k := ?r]\<rparr>)"
    by (simp only: step res)
  have L1: "length (lwp[Suc k := ?l]) = length (left_write_pos_buf s)"
    using len by simp
  have L2: "length (rwp[Suc k := ?r]) = length (right_write_pos_buf s)"
    using len by simp
  have I: "\<forall>j<Suc (Suc k).
        lwp[Suc k := ?l] ! j = sum_list (take j (left_cnts_buf s))
      \<and> rwp[Suc k := ?r] ! j = sum_list (take j (right_cnts_buf s))"
  proof (intro allI impI)
    fix j assume "j < Suc (Suc k)"
    then consider "j = Suc k" | "j < Suc k" by linarith
    then show "lwp[Suc k := ?l] ! j = sum_list (take j (left_cnts_buf s))
      \<and> rwp[Suc k := ?r] ! j = sum_list (take j (right_cnts_buf s))"
    proof cases
      case 1
      then show ?thesis using kn sz len by simp
    next
      case 2
      then show ?thesis using inv [of j] by simp
    qed
  qed
  show ?case
    apply (rule exI [of _ "lwp[Suc k := ?l]"], rule exI [of _ "rwp[Suc k := ?r]"])
    using S L1 L2 I apply (intro conjI)
       apply assumption+
    done
qed


lemma length_concat_upt_mono:
  "k \<le> n \<Longrightarrow> length (concat (map F [0..<k])) + length (concat (map F [k..<n]))
     = length (concat (map F [0..<n]))"
proof -
  assume "k \<le> n"
  then have "[0..<n] = [0..<k] @ [k..<n]"
    using upt_add_eq_append [of 0 k "n - k"] by simp
  then show ?thesis by simp
qed

lemma length_concat_upt_Suc_le:
  assumes "k < n"
  shows "length (concat (map F [0..<k])) + length (F k) \<le> length (concat (map F [0..<n]))"
proof -
  have "length (concat (map F [0..<Suc k])) \<le> length (concat (map F [0..<n]))"
    using length_concat_upt_mono [of "Suc k" n F] assms by simp
  then show ?thesis by simp
qed

lemma merge_block_ok:
  assumes "i < length (offsets_buf s)" "i < length (left_cnts_buf s)" "i < length (right_cnts_buf s)"
    "i < length (left_write_pos_buf s)" "i < length (right_write_pos_buf s)"
    and "read_cells ''temp_left_indices_'' (temp_left_indices s) (offsets_buf s ! i)
           (left_cnts_buf s ! i) = Inr l"
    and "read_cells ''temp_right_indices_'' (temp_right_indices s) (offsets_buf s ! i)
           (right_cnts_buf s ! i) = Inr r"
    and "left_write_pos_buf s ! i = int lp" "right_write_pos_buf s ! i = int rp"
    and "b + lp + length l \<le> length (indices s)" "b + lt + rp + length r \<le> length (indices s)"
  shows "merge_block (int b) (int lt) (int i) s
     = Inr (s\<lparr>indices := put (put (indices s) (b + lp) l) (b + lt + rp) r\<rparr>)"
proof -
  have w1: "write_cells ''indices_'' (indices s) (int b + int lp) l
      = Inr (put (indices s) (b + lp) l)"
    using assms(10) by (simp add: write_cells_ok nat_add_distrib)
  have w2: "write_cells ''indices_'' (put (indices s) (b + lp) l) (int b + int lt + int rp) r
      = Inr (put (put (indices s) (b + lp) l) (b + lt + rp) r)"
    using assms(10,11) by (simp add: write_cells_ok nat_add_distrib)
  show ?thesis
    using assms(1-5) by (simp add: merge_block_def vec_get_ok assms(6-9) w1 w2)
qed

lemma merge_loop:
  fixes s :: DataPartition and L R :: "nat \<Rightarrow> int list"
  assumes sz: "nb \<le> length (offsets_buf s)" "nb \<le> length (left_cnts_buf s)"
      "nb \<le> length (right_cnts_buf s)" "nb \<le> length (left_write_pos_buf s)"
      "nb \<le> length (right_write_pos_buf s)"
    and rd: "\<And>i. i < nb \<Longrightarrow>
        read_cells ''temp_left_indices_'' (temp_left_indices s) (offsets_buf s ! i)
           (left_cnts_buf s ! i) = Inr (L i)
      \<and> read_cells ''temp_right_indices_'' (temp_right_indices s) (offsets_buf s ! i)
           (right_cnts_buf s ! i) = Inr (R i)"
    and wp: "\<And>i. i < nb \<Longrightarrow>
        left_write_pos_buf s ! i = int (length (concat (map L [0..<i])))
      \<and> right_write_pos_buf s ! i = int (length (concat (map R [0..<i])))"
    and lt: "lt = length (concat (map L [0..<nb]))"
    and rt: "rt = length (concat (map R [0..<nb]))"
    and fit: "b + lt + rt \<le> length (indices s)"
    and k: "k \<le> nb"
  shows "\<exists>I.
      foldR (\<lambda>i. merge_block (int b) (int lt) (int i)) [0..<k] s = Inr (s\<lparr>indices := I\<rparr>)
    \<and> length I = length (indices s)
    \<and> take b I = take b (indices s)
    \<and> drop (b + lt + rt) I = drop (b + lt + rt) (indices s)
    \<and> take (length (concat (map L [0..<k]))) (drop b I) = concat (map L [0..<k])
    \<and> take (length (concat (map R [0..<k]))) (drop (b + lt) I) = concat (map R [0..<k])"
  using k
proof (induction k)
  case 0
  show ?case by (rule exI [of _ "indices s"]) simp
next
  case (Suc k)
  from Suc obtain I where
    run: "foldR (\<lambda>i. merge_block (int b) (int lt) (int i)) [0..<k] s = Inr (s\<lparr>indices := I\<rparr>)"
    and len: "length I = length (indices s)"
    and pre: "take b I = take b (indices s)"
    and post: "drop (b + lt + rt) I = drop (b + lt + rt) (indices s)"
    and left: "take (length (concat (map L [0..<k]))) (drop b I) = concat (map L [0..<k])"
    and right: "take (length (concat (map R [0..<k]))) (drop (b + lt) I) = concat (map R [0..<k])"
    by (auto simp del: foldR.simps upt_Suc)
  let ?sk = "s\<lparr>indices := I\<rparr>"
  define lp where "lp = length (concat (map L [0..<k]))"
  define rp where "rp = length (concat (map R [0..<k]))"
  have kn: "k < nb" using Suc.prems by simp
  have lpb: "lp + length (L k) \<le> lt"
    unfolding lp_def lt by (rule length_concat_upt_Suc_le [OF kn])
  have rpb: "rp + length (R k) \<le> rt"
    unfolding rp_def rt by (rule length_concat_upt_Suc_le [OF kn])
  have step: "foldR (\<lambda>i. merge_block (int b) (int lt) (int i)) [0..<Suc k] s
      = merge_block (int b) (int lt) (int k) ?sk"
    using foldR_snoc [OF run, of k] by (simp only: upt_Suc_append [OF le0])
  have res: "merge_block (int b) (int lt) (int k) ?sk
      = Inr (?sk\<lparr>indices := put (put (indices ?sk) (b + lp) (L k)) (b + lt + rp) (R k)\<rparr>)"
    using kn sz rd [OF kn] wp [OF kn] lpb rpb fit len
    by (intro merge_block_ok) (simp_all add: lp_def rp_def)
  define I' where "I' = put (put I (b + lp) (L k)) (b + lt + rp) (R k)"
  have S: "foldR (\<lambda>i. merge_block (int b) (int lt) (int i)) [0..<Suc k] s = Inr (s\<lparr>indices := I'\<rparr>)"
    unfolding step res I'_def by simp
  have f1: "b + lp + length (L k) \<le> length I" using lpb fit len by simp
  have f2: "b + lt + rp + length (R k) \<le> length (put I (b + lp) (L k))"
    using rpb fit len f1 by simp
  have L1: "length I' = length (indices s)" unfolding I'_def using f1 f2 len by simp
  have P1: "take b I' = take b (indices s)"
    unfolding I'_def using f1 f2 pre by (simp add: take_put_before)
  have P2: "drop (b + lt + rt) I' = drop (b + lt + rt) (indices s)"
    unfolding I'_def using f1 f2 lpb rpb post by (simp add: drop_put_after)
  have P3: "take (length (concat (map L [0..<Suc k]))) (drop b I') = concat (map L [0..<Suc k])"
  proof -
    have "take (lp + length (L k)) (drop b I') = take (lp + length (L k)) (drop b (put I (b + lp) (L k)))"
      unfolding I'_def using f1 f2 lpb by (intro slice_put_before) simp_all
    also have "\<dots> = take lp (drop b I) @ L k"
      using f1 by (intro slice_put_extend) simp_all
    finally show ?thesis using left by (simp add: lp_def)
  qed
  have P4: "take (length (concat (map R [0..<Suc k]))) (drop (b + lt) I') = concat (map R [0..<Suc k])"
  proof -
    have "take (rp + length (R k)) (drop (b + lt) I')
        = take rp (drop (b + lt) (put I (b + lp) (L k))) @ R k"
      unfolding I'_def using f2 by (intro slice_put_extend) simp_all
    also have "take rp (drop (b + lt) (put I (b + lp) (L k))) = take rp (drop (b + lt) I)"
      using f1 lpb by (intro slice_put_after) simp_all
    finally show ?thesis using right by (simp add: rp_def)
  qed
  show ?case
    apply (rule exI [of _ I'])
    using S L1 P1 P2 P3 P4 apply (intro conjI)
         apply assumption+
    done
qed

lemma block_slice_take: "block_slice bs parent i = take bs (drop (i * bs) parent)"
  by (auto simp add: block_slice_def min_def)

lemma concat_take_blocks:
  "concat (map (\<lambda>i. take bs (drop (i * bs) xs)) [0..<n]) = take (n * bs) xs"
proof (induction n)
  case 0
  show ?case by simp
next
  case (Suc n)
  have "Suc n * bs = n * bs + bs" by simp
  then have "take (Suc n * bs) xs = take (n * bs) xs @ take bs (drop (n * bs) xs)"
    by (simp only: take_add)
  then show ?case using Suc by simp
qed

lemma concat_block_slices:
  "length parent \<le> n * bs \<Longrightarrow> concat (map (block_slice bs parent) [0..<n]) = parent"
  by (simp add: block_slice_take [abs_def] concat_take_blocks)

lemma range32:
  fixes T A cnt :: int
  assumes "1 \<le> T" "1 \<le> A" "0 \<le> cnt" "cnt + 1024 < 2147483648" "cnt + T * A < 2147483648"
  shows "(32::nat) \<le> 32" "0 \<le> cnt" "(1::int) \<le> 1024" "1 \<le> T" "1 \<le> A"
    "cnt + 1024 < 2 ^ (32 - 1)" "cnt + T < 2 ^ (32 - 1)" "cnt + A < 2 ^ (32 - 1)"
    "(cnt + 1024 - 1) div 1024 < 2 ^ 31"
proof -
  have "T * 1 \<le> T * A" "1 * A \<le> T * A"
    using assms(1,2) by (intro mult_left_mono mult_right_mono, simp_all)+
  then have TA: "T \<le> T * A" "A \<le> T * A" by simp_all
  show "(32::nat) \<le> 32" "0 \<le> cnt" "(1::int) \<le> 1024" "1 \<le> T" "1 \<le> A"
    using assms by simp_all
  show "cnt + 1024 < 2 ^ (32 - 1)" using assms by simp
  show "cnt + T < 2 ^ (32 - 1)" "cnt + A < 2 ^ (32 - 1)" using TA assms(5) by simp_all
  have "(cnt + 1024 - 1) div 1024 \<le> cnt" by (rule quotient_bounds(2)) (use assms in simp_all)
  then show "(cnt + 1024 - 1) div 1024 < 2 ^ 31" using assms by simp
qed

lemma For_Split_nat:
  assumes bi: "BlockInfo 32 T A (int c) 1024 = (int nb, int bs)"
    and rng: "int c < 2147483648" "int (nb * bs) < 2147483648"
  shows "For 32 T A 0 (int c) 1024 (\<lambda>i p e s. returns (split_block orc (int b) i p e s)) s
    = bindR (foldR (\<lambda>i. split_block orc (int b) (int i) (int (i * bs)) (int (min c ((i + 1) * bs))))
               [0..<nb] s)
        (\<lambda>s'. Inr (Inr (int nb), s'))"
proof -
  have e: "split_block orc (int b) (int i) (0 + int i * int bs) (min (int c) (0 + (int i + 1) * int bs))
      = split_block orc (int b) (int i) (int (i * bs)) (int (min c ((i + 1) * bs)))" for i
  proof -
    have "0 + int i * int bs = int (i * bs)" by simp
    moreover have "min (int c) (0 + (int i + 1) * int bs) = int (min c ((i + 1) * bs))"
      by (simp add: min_def algebra_simps flip: of_nat_mult of_nat_add)
    ultimately show ?thesis by (simp only:)
  qed
  have bi': "BlockInfo 32 T A (int c - 0) 1024 = (int nb, int bs)" using bi by simp
  have h: "- (2 ^ (32 - 1)) \<le> int c - 0" "int c - 0 < 2 ^ (32 - 1)" "0 \<le> int bs"
    "- (2 ^ (32 - 1)) \<le> (0::int)" "0 + int nb * int bs < 2 ^ (32 - 1)"
    "int nb * int bs < 2 ^ (32 - 1)"
    using rng by simp_all
  have "For 32 T A 0 (int c) 1024 (\<lambda>i p e s. returns (split_block orc (int b) i p e s)) s
      = bindR (foldR (\<lambda>i (h, s).
                  bindR (returns (split_block orc (int b) (int i) (0 + int i * int bs)
                           (min (int c) (0 + (int i + 1) * int bs)) s))
                    (\<lambda>(ex, s'). Inr (CaptureException h ex, s')))
                [0..<nb] (None, s))
          (\<lambda>(h, s'). Inr (case h of None \<Rightarrow> Inr (int nb) | Some x \<Rightarrow> Inl x, s'))"
    by (simp add: For_blocks [OF bi' h] foldR_map comp_def)
  also have "\<dots> = bindR (foldR (\<lambda>i. split_block orc (int b) (int i) (0 + int i * int bs)
                           (min (int c) (0 + (int i + 1) * int bs))) [0..<nb] s)
        (\<lambda>s'. Inr (Inr (int nb), s'))"
    by (simp only: capture_loop_returns) (simp add: bindR_def split: sum.splits)
  finally show ?thesis by (simp only: e)
qed

lemma BlockInfo_nat:
  assumes "1 \<le> T" "1 \<le> A" "0 < c" "int c + 1024 < 2147483648" "int c + T * A < 2147483648"
  obtains nb bs where "BlockInfo 32 T A (int c) 1024 = (int nb, int bs)" "0 < nb" "0 < bs"
    "int nb \<le> T" "c \<le> nb * bs" "int (nb * bs) < 2147483648"
proof -
  let ?nb = "fst (BlockInfo 32 T A (int c) 1024)" and ?bs = "snd (BlockInfo 32 T A (int c) 1024)"
  have c: "0 < int c" "0 \<le> int c" using assms by simp_all
  note h = range32 [OF assms(1,2) c(2) assms(4,5)]
  have p: "0 < ?nb" "0 < ?bs" using block_positive [OF h(1) c(1) h(3-9)] by simp_all
  have le: "?nb \<le> T" by (rule BlockInfo_nonneg(2) [OF h])
  note cov = BlockInfo_cover [OF h]
  have 1: "BlockInfo 32 T A (int c) 1024 = (int (nat ?nb), int (nat ?bs))" using p by simp
  have "int c \<le> int (nat ?nb * nat ?bs)" using cov(1) p by simp
  then have 5: "c \<le> nat ?nb * nat ?bs" by (simp only: of_nat_le_iff)
  have "int (nat ?nb * nat ?bs) = ?nb * ?bs" using p by simp
  then have 6: "int (nat ?nb * nat ?bs) < 2147483648" using cov(2) assms(5) by linarith
  show thesis
    using p le by (intro that [OF 1 _ _ _ 5 6]) simp_all
qed

lemma read_cells_nat:
  "p + n \<le> length v \<Longrightarrow> read_cells b v (int p) (int n) = Inr (take n (drop p v))"
  by (cases "n = 0") (simp_all add: read_cells_def)

lemma For_split_block:
  fixes s :: DataPartition and b c nb bs :: nat
  assumes bi: "BlockInfo 32 T A (int c) 1024 = (int nb, int bs)" "0 < bs" "int nb \<le> T"
    and sz: "b + c \<le> length (indices s)" "c \<le> length (temp_left_indices s)"
      "c \<le> length (temp_right_indices s)" "T \<le> int (length (offsets_buf s))"
      "T \<le> int (length (left_cnts_buf s))" "T \<le> int (length (right_cnts_buf s))"
    and parent: "parent = take c (drop b (indices s))"
    and rng: "int c < 2147483648" "int (nb * bs) < 2147483648"
  shows "\<exists>tl tr ob lc rc.
      For 32 T A 0 (int c) 1024 (\<lambda>i p e s. returns (split_block orc (int b) i p e s)) s
        = Inr (Inr (int nb), s\<lparr>temp_left_indices := tl, temp_right_indices := tr, offsets_buf := ob,
                 left_cnts_buf := lc, right_cnts_buf := rc\<rparr>)
    \<and> length tl = length (temp_left_indices s) \<and> length tr = length (temp_right_indices s)
    \<and> length ob = length (offsets_buf s) \<and> length lc = length (left_cnts_buf s)
    \<and> length rc = length (right_cnts_buf s)
    \<and> (\<forall>i<nb. lc ! i = int (length (fst (dataset_Split orc (block_slice bs parent i))))
             \<and> rc ! i = int (length (snd (dataset_Split orc (block_slice bs parent i))))
             \<and> read_cells ''temp_left_indices_'' tl (ob ! i) (lc ! i)
                  = Inr (fst (dataset_Split orc (block_slice bs parent i)))
             \<and> read_cells ''temp_right_indices_'' tr (ob ! i) (rc ! i)
                  = Inr (snd (dataset_Split orc (block_slice bs parent i)))
             \<and> ob ! i = (if block_slice bs parent i = [] then offsets_buf s ! i else int (i * bs)))"
proof -
  let ?L = "\<lambda>i. fst (dataset_Split orc (block_slice bs parent i))"
  let ?R = "\<lambda>i. snd (dataset_Split orc (block_slice bs parent i))"
  have nbl: "nb \<le> length (offsets_buf s)" "nb \<le> length (left_cnts_buf s)"
    "nb \<le> length (right_cnts_buf s)"
    using bi(3) sz(4-6) by linarith+
  from blocks_loop [OF sz(1-3) nbl bi(2) parent rng le_refl, of orc]
  obtain tl tr ob lc rc where
    run: "foldR (\<lambda>i. split_block orc (int b) (int i) (int (i * bs)) (int (min c ((i + 1) * bs))))
        [0..<nb] s
        = Inr (s\<lparr>temp_left_indices := tl, temp_right_indices := tr, offsets_buf := ob,
                 left_cnts_buf := lc, right_cnts_buf := rc\<rparr>)"
    and len: "length tl = length (temp_left_indices s)" "length tr = length (temp_right_indices s)"
      "length ob = length (offsets_buf s)" "length lc = length (left_cnts_buf s)"
      "length rc = length (right_cnts_buf s)"
    and inv: "\<And>i. i < nb \<Longrightarrow> lc ! i = int (length (?L i)) \<and> rc ! i = int (length (?R i))
             \<and> (block_slice bs parent i \<noteq> [] \<longrightarrow>
                   ob ! i = int (i * bs)
                 \<and> take (length (?L i)) (drop (i * bs) tl) = ?L i
                 \<and> take (length (?R i)) (drop (i * bs) tr) = ?R i)"
    and inv2: "\<And>i. nb \<le> i \<or> block_slice bs parent i = [] \<Longrightarrow> ob ! i = offsets_buf s ! i"
    by (elim exE conjE) blast
  have F: "For 32 T A 0 (int c) 1024 (\<lambda>i p e s. returns (split_block orc (int b) i p e s)) s
        = Inr (Inr (int nb), s\<lparr>temp_left_indices := tl, temp_right_indices := tr, offsets_buf := ob,
                 left_cnts_buf := lc, right_cnts_buf := rc\<rparr>)"
    by (simp only: For_Split_nat [OF bi(1) rng] run bindR_Inr)
  have pc: "length parent = c" using sz(1) by (simp add: parent)
  have R: "lc ! i = int (length (?L i)) \<and> rc ! i = int (length (?R i))
        \<and> read_cells ''temp_left_indices_'' tl (ob ! i) (lc ! i) = Inr (?L i)
        \<and> read_cells ''temp_right_indices_'' tr (ob ! i) (rc ! i) = Inr (?R i)
        \<and> ob ! i = (if block_slice bs parent i = [] then offsets_buf s ! i else int (i * bs))"
    if i: "i < nb" for i
  proof (cases "block_slice bs parent i = []")
    case True
    then show ?thesis using inv [OF i] inv2 [of i] by simp
  next
    case False
    have lr: "length (?L i) + length (?R i) = length (block_slice bs parent i)"
      by (rule dataset_Split_length)
    have "i * bs < c" using False pc by (auto simp: block_slice_def)
    then have fit: "i * bs + length (block_slice bs parent i) \<le> c"
      using pc by (simp add: block_slice_def)
    have "read_cells ''temp_left_indices_'' tl (int (i * bs)) (int (length (?L i)))
        = Inr (take (length (?L i)) (drop (i * bs) tl))"
      using fit lr sz(2) len(1) by (intro read_cells_nat) linarith
    moreover have "read_cells ''temp_right_indices_'' tr (int (i * bs)) (int (length (?R i)))
        = Inr (take (length (?R i)) (drop (i * bs) tr))"
      using fit lr sz(3) len(2) by (intro read_cells_nat) linarith
    ultimately show ?thesis using inv [OF i] False by simp
  qed
  have R': "\<forall>i<nb. lc ! i = int (length (?L i)) \<and> rc ! i = int (length (?R i))
        \<and> read_cells ''temp_left_indices_'' tl (ob ! i) (lc ! i) = Inr (?L i)
        \<and> read_cells ''temp_right_indices_'' tr (ob ! i) (rc ! i) = Inr (?R i)
        \<and> ob ! i = (if block_slice bs parent i = [] then offsets_buf s ! i else int (i * bs))"
    using R by blast
  show ?thesis
    using F len R' by (intro exI conjI)
qed


lemma Split_slices_nat:
  "BlockInfo 32 T A (int (length parent)) 1024 = (int nb, int bs)
     \<Longrightarrow> Split_slices T A parent = map (block_slice bs parent) [0..<nb]"
  by (simp add: Split_slices_def)

lemma Split_core:
  fixes s :: DataPartition and b c l r :: nat
  assumes T: "1 \<le> T" "1 \<le> A"
    and lf: "l < length (leaf_begin s)" "l < length (leaf_count s)"
      "leaf_begin s ! l = int b" "leaf_count s ! l = int c" "0 < c"
    and rl: "r < length (leaf_begin s)" "r < length (leaf_count s)"
    and sz: "b + c \<le> length (indices s)" "c \<le> length (temp_left_indices s)"
      "c \<le> length (temp_right_indices s)" "T \<le> int (length (offsets_buf s))"
      "T \<le> int (length (left_cnts_buf s))" "T \<le> int (length (right_cnts_buf s))"
    and szw: "T \<le> int (length (left_write_pos_buf s))" "T \<le> int (length (right_write_pos_buf s))"
    and parent: "parent = take c (drop b (indices s))"
    and lt: "lt = length (routed_left orc (Split_slices T A parent))"
    and rng: "int (b + c) < 2147483648" "int c + 1024 < 2147483648" "int c + T * A < 2147483648"
  shows "\<exists>s'. Split T A (int l) orc (int r) s = Inr s'
    \<and> indices s' = take b (indices s) @ routed_left orc (Split_slices T A parent)
          @ routed_right orc (Split_slices T A parent) @ drop (b + c) (indices s)
    \<and> leaf_count s' = (leaf_count s)[l := int lt, r := int c - int lt]
    \<and> leaf_begin s' = (leaf_begin s)[r := int lt + int b]
    \<and> num_data s' = num_data s \<and> num_leaves s' = num_leaves s
    \<and> used_data_indices s' = used_data_indices s \<and> used_data_count s' = used_data_count s
    \<and> num_threads s' = num_threads s
    \<and> length (temp_left_indices s') = length (temp_left_indices s)
    \<and> length (temp_right_indices s') = length (temp_right_indices s)
    \<and> length (offsets_buf s') = length (offsets_buf s)
    \<and> length (left_cnts_buf s') = length (left_cnts_buf s)
    \<and> length (right_cnts_buf s') = length (right_cnts_buf s)
    \<and> length (left_write_pos_buf s') = length (left_write_pos_buf s)
    \<and> length (right_write_pos_buf s') = length (right_write_pos_buf s)"
proof -
  obtain nb bs where bi: "BlockInfo 32 T A (int c) 1024 = (int nb, int bs)" "0 < nb" "0 < bs"
    "int nb \<le> T" "c \<le> nb * bs" "int (nb * bs) < 2147483648"
    by (rule BlockInfo_nat [OF T lf(5) rng(2,3)])
  have c32: "int c < 2147483648" using rng(2) by simp
  have "nb * 1 \<le> nb * bs" using bi(3) by (intro mult_le_mono2) simp
  then have "int nb \<le> int (nb * bs)" by (simp only: of_nat_le_iff mult_1_right)
  then have nb32: "int nb < 2147483648" using bi(6) by linarith
  let ?L = "\<lambda>i. fst (dataset_Split orc (block_slice bs parent i))"
  let ?R = "\<lambda>i. snd (dataset_Split orc (block_slice bs parent i))"
  have pc: "length parent = c" using sz(1) by (simp add: parent)
  have slices: "Split_slices T A parent = map (block_slice bs parent) [0..<nb]"
    using bi(1) by (intro Split_slices_nat) (simp add: pc)
  have cc: "concat (Split_slices T A parent) = parent"
    unfolding slices using bi(5) by (intro concat_block_slices) (simp add: pc)
  have Leq: "routed_left orc (Split_slices T A parent) = concat (map ?L [0..<nb])"
    by (simp add: routed_left_def slices comp_def)
  have Req: "routed_right orc (Split_slices T A parent) = concat (map ?R [0..<nb])"
    by (simp add: routed_right_def slices comp_def)
  define rt where "rt = length (concat (map ?R [0..<nb]))"
  have lt': "lt = length (concat (map ?L [0..<nb]))" by (simp add: lt Leq)
  have total: "lt + rt = c"
  proof -
    have "length (concat (map ?L [0..<n])) + length (concat (map ?R [0..<n]))
        = length (concat (map (block_slice bs parent) [0..<n]))" for n
    proof (induction n)
      case 0
      show ?case by simp
    next
      case (Suc n)
      show ?case
        using Suc dataset_Split_length [of orc "block_slice bs parent n"] by simp
    qed
    then show ?thesis using cc by (simp add: lt' rt_def slices pc)
  qed
  from For_split_block [OF bi(1,3,4) sz parent c32 bi(6), of orc]
  obtain tl tr ob lc rc where
    F0: "For 32 T A 0 (int c) 1024 (\<lambda>i p e s. returns (split_block orc (int b) i p e s)) s
        = Inr (Inr (int nb), s\<lparr>temp_left_indices := tl, temp_right_indices := tr, offsets_buf := ob,
                 left_cnts_buf := lc, right_cnts_buf := rc\<rparr>)"
    and len: "length tl = length (temp_left_indices s)" "length tr = length (temp_right_indices s)"
      "length ob = length (offsets_buf s)" "length lc = length (left_cnts_buf s)"
      "length rc = length (right_cnts_buf s)"
    and cnts: "\<And>i. i < nb \<Longrightarrow> lc ! i = int (length (?L i)) \<and> rc ! i = int (length (?R i))
             \<and> read_cells ''temp_left_indices_'' tl (ob ! i) (lc ! i) = Inr (?L i)
             \<and> read_cells ''temp_right_indices_'' tr (ob ! i) (rc ! i) = Inr (?R i)"
    by (elim exE conjE) blast
  define s1 where "s1 = s\<lparr>temp_left_indices := tl, temp_right_indices := tr, offsets_buf := ob,
                 left_cnts_buf := lc, right_cnts_buf := rc\<rparr>"
  have F: "For 32 T A 0 (int c) 1024 (\<lambda>i p e s. returns (split_block orc (int b) i p e s)) s
      = Inr (Inr (int nb), s1)"
    by (simp only: F0 s1_def)
  have nbl: "nb \<le> length ob" "nb \<le> length lc" "nb \<le> length rc"
    "nb \<le> length (left_write_pos_buf s)" "nb \<le> length (right_write_pos_buf s)"
    using bi(4) sz(4-6) szw len by linarith+
  define s1' where "s1' = s1\<lparr>left_write_pos_buf := (left_write_pos_buf s)[0 := 0],
      right_write_pos_buf := (right_write_pos_buf s)[0 := 0]\<rparr>"
  have V1: "vec_set ''left_write_pos_buf_'' (left_write_pos_buf s1) 0 0
      = Inr ((left_write_pos_buf s)[0 := 0])"
    using nbl(4) bi(2) by (auto simp add: vec_set_def s1_def)
  have V2: "vec_set ''right_write_pos_buf_'' (right_write_pos_buf s1) 0 0
      = Inr ((right_write_pos_buf s)[0 := 0])"
    using nbl(5) bi(2) by (auto simp add: vec_set_def s1_def)
  have sumsL: "sum_list (take j lc) = int (length (concat (map ?L [0..<j])))" if "j \<le> nb" for j
    using cnts that nbl by (intro sum_list_take_nth) simp_all
  have sumsR: "sum_list (take j rc) = int (length (concat (map ?R [0..<j])))" if "j \<le> nb" for j
    using cnts that nbl by (intro sum_list_take_nth) simp_all
  have rngW: "0 \<le> sum_list (take j lc) \<and> sum_list (take j lc) < 2147483648
      \<and> 0 \<le> sum_list (take j rc) \<and> sum_list (take j rc) < 2147483648" if j: "j \<le> nb" for j
  proof -
    have "length (concat (map ?L [0..<j])) \<le> lt" "length (concat (map ?R [0..<j])) \<le> rt"
      using length_concat_upt_mono [OF j, of ?L] length_concat_upt_mono [OF j, of ?R]
      by (simp_all add: lt' rt_def)
    then show ?thesis using sumsL [OF j] sumsR [OF j] total c32 by linarith
  qed
  have "\<exists>lwp rwp.
      foldR (\<lambda>i. write_pos_step (int i)) [1..<Suc (nb - 1)] s1'
        = Inr (s1'\<lparr>left_write_pos_buf := lwp, right_write_pos_buf := rwp\<rparr>)
    \<and> length lwp = length (left_write_pos_buf s1') \<and> length rwp = length (right_write_pos_buf s1')
    \<and> (\<forall>j<Suc (nb - 1). lwp ! j = sum_list (take j (left_cnts_buf s1'))
               \<and> rwp ! j = sum_list (take j (right_cnts_buf s1')))"
  proof -
    have "0 < length (left_write_pos_buf s)" "0 < length (right_write_pos_buf s)"
      using nbl bi(2) by linarith+
    then show ?thesis
      using nbl bi(2) rngW by (intro write_pos_loop [of nb]) (simp_all add: s1'_def s1_def)
  qed
  then obtain lwp rwp where
    W0: "foldR (\<lambda>i. write_pos_step (int i)) [1..<Suc (nb - 1)] s1'
        = Inr (s1'\<lparr>left_write_pos_buf := lwp, right_write_pos_buf := rwp\<rparr>)"
    and wlen: "length lwp = length (left_write_pos_buf s1')" "length rwp = length (right_write_pos_buf s1')"
    and wsum: "\<And>j. j < Suc (nb - 1) \<Longrightarrow> lwp ! j = sum_list (take j (left_cnts_buf s1'))
               \<and> rwp ! j = sum_list (take j (right_cnts_buf s1'))"
    by (elim exE conjE) blast
  define s2 where "s2 = s1'\<lparr>left_write_pos_buf := lwp, right_write_pos_buf := rwp\<rparr>"
  have W: "foldR write_pos_step (map int [1..<nat (int nb)]) s1' = Inr s2"
    using W0 bi(2) by (simp add: foldR_map s2_def del: upt_Suc)
  have fields2: "offsets_buf s2 = ob" "left_cnts_buf s2 = lc" "right_cnts_buf s2 = rc"
    "left_write_pos_buf s2 = lwp" "right_write_pos_buf s2 = rwp" "indices s2 = indices s"
    "temp_left_indices s2 = tl" "temp_right_indices s2 = tr"
    "leaf_count s2 = leaf_count s" "leaf_begin s2 = leaf_begin s"
    by (simp_all add: s2_def s1'_def s1_def)
  have wl: "length lwp = length (left_write_pos_buf s)" "length rwp = length (right_write_pos_buf s)"
    using wlen by (simp_all add: s1'_def s1_def)
  have sums: "lwp ! j = int (length (concat (map ?L [0..<j])))
        \<and> rwp ! j = int (length (concat (map ?R [0..<j])))" if j: "j < nb" for j
  proof -
    have a: "lwp ! j = sum_list (take j lc)" "rwp ! j = sum_list (take j rc)"
      using wsum [of j] j by (simp_all add: s1'_def s1_def)
    have "sum_list (take j lc) = int (length (concat (map ?L [0..<j])))"
      using cnts j nbl by (intro sum_list_take_nth) simp_all
    moreover have "sum_list (take j rc) = int (length (concat (map ?R [0..<j])))"
      using cnts j nbl by (intro sum_list_take_nth) simp_all
    ultimately show ?thesis using a by simp
  qed
  have m1: "isub 32 (int nb) 1 = int nb - 1" using bi(2) nb32 by (simp add: isub32_id)
  have G1: "vec_get ''left_write_pos_buf_'' (left_write_pos_buf s2) (isub 32 (int nb) 1)
      = Inr (lwp ! (nb - 1))"
    using bi(2) nbl wl by (simp add: m1 vec_get_def fields2 nat_diff_distrib)
  have G2: "vec_get ''left_cnts_buf_'' (left_cnts_buf s2) (isub 32 (int nb) 1) = Inr (lc ! (nb - 1))"
    using bi(2) nbl by (simp add: m1 vec_get_def fields2 nat_diff_distrib)
  have LT0: "lwp ! (nb - 1) + lc ! (nb - 1) = int lt"
  proof -
    have "[0..<nb] = [0..<nb - 1] @ [nb - 1]"
      using bi(2) upt_Suc_append [of 0 "nb - 1"] by simp
    then have "concat (map ?L [0..<nb]) = concat (map ?L [0..<nb - 1]) @ ?L (nb - 1)"
      by (metis (no_types, lifting) concat.simps concat_append list.simps(8,9) map_append
          append_Nil2)
    then show ?thesis using sums [of "nb - 1"] cnts [of "nb - 1"] bi(2) by (simp add: lt')
  qed
  have ltc: "lt \<le> c" using total by simp
  have LT: "iadd 32 (lwp ! (nb - 1)) (lc ! (nb - 1)) = int lt"
    using LT0 ltc c32 by (simp add: iadd32_id)
  have "\<exists>I.
      foldR (\<lambda>i. merge_block (int b) (int lt) (int i)) [0..<nb] s2 = Inr (s2\<lparr>indices := I\<rparr>)
    \<and> length I = length (indices s2)
    \<and> take b I = take b (indices s2)
    \<and> drop (b + lt + rt) I = drop (b + lt + rt) (indices s2)
    \<and> take (length (concat (map ?L [0..<nb]))) (drop b I) = concat (map ?L [0..<nb])
    \<and> take (length (concat (map ?R [0..<nb]))) (drop (b + lt) I) = concat (map ?R [0..<nb])"
  proof -
    have rd: "read_cells ''temp_left_indices_'' (temp_left_indices s2) (offsets_buf s2 ! i)
           (left_cnts_buf s2 ! i) = Inr (?L i)
      \<and> read_cells ''temp_right_indices_'' (temp_right_indices s2) (offsets_buf s2 ! i)
           (right_cnts_buf s2 ! i) = Inr (?R i)" if "i < nb" for i
      unfolding fields2 using cnts [OF that] by blast
    have wp: "left_write_pos_buf s2 ! i = int (length (concat (map ?L [0..<i])))
      \<and> right_write_pos_buf s2 ! i = int (length (concat (map ?R [0..<i])))" if "i < nb" for i
      unfolding fields2 using sums [OF that] .
    have z: "nb \<le> length (offsets_buf s2)" "nb \<le> length (left_cnts_buf s2)"
      "nb \<le> length (right_cnts_buf s2)" "nb \<le> length (left_write_pos_buf s2)"
      "nb \<le> length (right_write_pos_buf s2)"
      unfolding fields2 using nbl wl by simp_all
    have fit: "b + lt + rt \<le> length (indices s2)"
      unfolding fields2 using total sz(1) by simp
    show ?thesis
      by (rule merge_loop [of nb s2 ?L ?R lt rt b nb, OF z rd wp lt' rt_def fit le_refl])
  qed
  then obtain I where
    M0: "foldR (\<lambda>i. merge_block (int b) (int lt) (int i)) [0..<nb] s2 = Inr (s2\<lparr>indices := I\<rparr>)"
    and Ilen: "length I = length (indices s)"
    and Ipre: "take b I = take b (indices s)"
    and Ipost: "drop (b + c) I = drop (b + c) (indices s)"
    and Il: "take lt (drop b I) = concat (map ?L [0..<nb])"
    and Ir: "take rt (drop (b + lt) I) = concat (map ?R [0..<nb])"
    using total by (auto simp add: fields2 lt' rt_def add.assoc simp del: foldR.simps)
  define s3 where "s3 = s2\<lparr>indices := I\<rparr>"
  have M: "foldR (merge_block (int b) (int lt)) (map int [0..<nat (int nb)]) s2 = Inr s3"
    using M0 by (simp add: foldR_map s3_def)
  have Ieq: "I = take b (indices s) @ concat (map ?L [0..<nb]) @ concat (map ?R [0..<nb])
      @ drop (b + c) (indices s)"
  proof -
    have "I = take b I @ take lt (drop b I) @ take rt (drop (b + lt) I) @ drop (b + lt + rt) I"
      by (metis append_take_drop_id drop_drop add.commute)
    then show ?thesis using Ipre Ipost Il Ir total by (simp add: add.assoc)
  qed
  define s' where "s' = s3\<lparr>leaf_count := (leaf_count s)[l := int lt, r := int c - int lt],
      leaf_begin := (leaf_begin s)[r := int lt + int b]\<rparr>"
  have U1: "vec_set ''leaf_count_'' (leaf_count s3) (int l) (int lt) = Inr ((leaf_count s)[l := int lt])"
    using lf by (simp add: vec_set_def s3_def fields2)
  have a1: "iadd 32 (int lt) (int b) = int lt + int b"
    using ltc rng(1) by (intro iadd32_id) linarith+
  have a2: "isub 32 (int c) (int lt) = int c - int lt"
    using ltc c32 by (intro isub32_id) linarith+
  have U2: "vec_set ''leaf_begin_'' (leaf_begin s3) (int r) (iadd 32 (int lt) (int b))
      = Inr ((leaf_begin s)[r := int lt + int b])"
    using rl by (simp add: a1 vec_set_def s3_def fields2)
  have U3: "vec_set ''leaf_count_'' ((leaf_count s)[l := int lt]) (int r) (isub 32 (int c) (int lt))
      = Inr ((leaf_count s)[l := int lt, r := int c - int lt])"
    using rl by (simp add: a2 vec_set_def)
  have B1: "vec_get ''leaf_begin_'' (leaf_begin s) (int l) = Inr (int b)"
    using lf by (simp add: vec_get_def)
  have B2: "vec_get ''leaf_count_'' (leaf_count s) (int l) = Inr (int c)"
    using lf by (simp add: vec_get_def)
  have S: "Split T A (int l) orc (int r) s = Inr s'"
    unfolding Split_def B1 B2 bindR_Inr F prod.case sum.case V1 V2 s1'_def [symmetric] W G1 G2
      Let_def LT M U1 U2 U3 s'_def ..
  have res: "indices s' = take b (indices s) @ routed_left orc (Split_slices T A parent)
          @ routed_right orc (Split_slices T A parent) @ drop (b + c) (indices s)"
    by (simp add: s'_def s3_def Ieq Leq Req)
  show ?thesis
    apply (rule exI [of _ s'])
    apply (intro conjI)
                   apply (rule S)
                  apply (rule res)
                 apply (simp_all add: s'_def s3_def s2_def s1'_def s1_def len wl)
    done
qed

lemma concat_Split_slices:
  assumes "1 \<le> T" "1 \<le> A"
    and "int (length parent) + 1024 < 2147483648" "int (length parent) + T * A < 2147483648"
  shows "concat (Split_slices T A parent) = parent"
proof (cases "parent = []")
  case True
  have "BlockInfo 32 T A 0 1024 = (0, 0)"
    using assms(1) by (intro BlockInfo_zero) simp_all
  then show ?thesis using True by (simp add: Split_slices_def)
next
  case False
  then have c: "0 < length parent" by simp
  obtain nb bs where bi: "BlockInfo 32 T A (int (length parent)) 1024 = (int nb, int bs)"
    "length parent \<le> nb * bs"
    using BlockInfo_nat [OF assms(1,2) c assms(3,4)] by metis
  show ?thesis
    unfolding Split_slices_nat [OF bi(1)] by (rule concat_block_slices [OF bi(2)])
qed

lemma routed_length:
  "length (routed_left orc slices) + length (routed_right orc slices) = length (concat slices)"
proof (induction slices)
  case Nil
  show ?case by (simp add: routed_left_def routed_right_def)
next
  case (Cons xs slices)
  then show ?case
    using dataset_Split_length [of orc xs] by (simp add: routed_left_def routed_right_def)
qed

lemma routed_mset:
  "mset (routed_left orc slices) + mset (routed_right orc slices) = mset (concat slices)"
proof (induction slices)
  case Nil
  show ?case by (simp add: routed_left_def routed_right_def)
next
  case (Cons xs slices)
  have "mset (routed_left orc (xs # slices)) + mset (routed_right orc (xs # slices))
      = (mset (fst (dataset_Split orc xs)) + mset (snd (dataset_Split orc xs)))
        + (mset (routed_left orc slices) + mset (routed_right orc slices))"
    by (simp add: routed_left_def routed_right_def)
  then show ?case by (simp add: Cons dataset_Split_mset)
qed

lemma routed_subseq:
  "subseq (routed_left orc slices) (concat slices)"
  "subseq (routed_right orc slices) (concat slices)"
proof -
  show "subseq (routed_left orc slices) (concat slices)"
    by (induction slices)
      (simp_all add: routed_left_def dataset_Split_subseq list_emb_append_mono)
  show "subseq (routed_right orc slices) (concat slices)"
    by (induction slices)
      (simp_all add: routed_right_def dataset_Split_subseq list_emb_append_mono)
qed

lemma routed_by_id:
  "routed_left (\<lambda>xs k. P (xs ! k)) slices = filter P (concat slices)"
  "routed_right (\<lambda>xs k. P (xs ! k)) slices = filter (\<lambda>x. \<not> P x) (concat slices)"
  by (induction slices) (simp_all add: routed_left_def routed_right_def dataset_Split_by_id)

lemma routed_left_sum:
  "(\<Sum>xs\<leftarrow>slices. int (length (fst (dataset_Split orc xs)))) = int (length (routed_left orc slices))"
  by (induction slices) (simp_all add: routed_left_def)

lemma Split_result:
  assumes "sized T s" "1 \<le> A" "leaf_in_store s leaf" "0 < leaf_count s ! nat leaf"
    "0 \<le> right_leaf" "right_leaf < num_leaves s"
    and rng: "num_data s + 1024 < 2 ^ 31" "num_data s + T * A < 2 ^ 31"
  shows "\<exists>s'. Split T A leaf orc right_leaf s = Inr s'
    \<and> indices s' = take (nat (leaf_begin s ! nat leaf)) (indices s)
          @ routed_left orc (Split_slices T A (leaf_range s leaf))
          @ routed_right orc (Split_slices T A (leaf_range s leaf))
          @ drop (nat (leaf_begin s ! nat leaf) + nat (leaf_count s ! nat leaf)) (indices s)
    \<and> leaf_count s' = (leaf_count s)
          [nat leaf := int (length (routed_left orc (Split_slices T A (leaf_range s leaf)))),
           nat right_leaf := leaf_count s ! nat leaf
              - int (length (routed_left orc (Split_slices T A (leaf_range s leaf))))]
    \<and> leaf_begin s' = (leaf_begin s)
          [nat right_leaf := int (length (routed_left orc (Split_slices T A (leaf_range s leaf))))
              + leaf_begin s ! nat leaf]
    \<and> num_data s' = num_data s \<and> num_leaves s' = num_leaves s
    \<and> used_data_indices s' = used_data_indices s \<and> used_data_count s' = used_data_count s
    \<and> num_threads s' = num_threads s
    \<and> length (temp_left_indices s') = length (temp_left_indices s)
    \<and> length (temp_right_indices s') = length (temp_right_indices s)
    \<and> length (offsets_buf s') = length (offsets_buf s)
    \<and> length (left_cnts_buf s') = length (left_cnts_buf s)
    \<and> length (right_cnts_buf s') = length (right_cnts_buf s)
    \<and> length (left_write_pos_buf s') = length (left_write_pos_buf s)
    \<and> length (right_write_pos_buf s') = length (right_write_pos_buf s)"
proof -
  define l where "l = nat leaf"
  define r where "r = nat right_leaf"
  define b where "b = nat (leaf_begin s ! l)"
  define c where "c = nat (leaf_count s ! l)"
  have sz: "0 \<le> num_data s" "int (length (indices s)) = num_data s"
    "int (length (temp_left_indices s)) = num_data s"
    "int (length (temp_right_indices s)) = num_data s"
    "int (length (leaf_begin s)) = num_leaves s" "int (length (leaf_count s)) = num_leaves s"
    "1 \<le> T" "T \<le> int (length (offsets_buf s))" "T \<le> int (length (left_cnts_buf s))"
    "T \<le> int (length (right_cnts_buf s))" "T \<le> int (length (left_write_pos_buf s))"
    "T \<le> int (length (right_write_pos_buf s))"
    using assms(1) by (simp_all add: sized_def)
  have lf: "0 \<le> leaf" "leaf < num_leaves s" "0 \<le> leaf_begin s ! l" "0 \<le> leaf_count s ! l"
    "leaf_begin s ! l + leaf_count s ! l \<le> num_data s"
    using assms(3) by (simp_all add: leaf_in_store_def l_def)
  have il: "int l = leaf" "int r = right_leaf" using lf assms(5) by (simp_all add: l_def r_def)
  have ib: "leaf_begin s ! l = int b" "leaf_count s ! l = int c" using lf by (simp_all add: b_def c_def)
  have c0: "0 < c" using assms(4) by (simp add: c_def l_def)
  have ll: "l < length (leaf_begin s)" "l < length (leaf_count s)"
    "r < length (leaf_begin s)" "r < length (leaf_count s)"
    using lf sz assms(5,6) by (simp_all add: l_def r_def)
  have fit: "b + c \<le> length (indices s)" "c \<le> length (temp_left_indices s)"
    "c \<le> length (temp_right_indices s)"
    using lf sz ib by linarith+
  have pr: "leaf_range s leaf = take c (drop b (indices s))"
    by (simp add: leaf_range_def b_def c_def l_def)
  have r32: "int (b + c) < 2147483648" "int c + 1024 < 2147483648" "int c + T * A < 2147483648"
    using fit(1) sz(2) lf(3,5) ib rng by simp_all
  note core = Split_core [OF sz(7) assms(2) ll(1,2) ib c0 ll(3,4) fit sz(8-12) pr refl r32, of orc]
  show ?thesis
    unfolding l_def [symmetric] r_def [symmetric] ib nat_int
    using core [unfolded il] .
qed

lemma large_ready:
  "sized 2 (large 2)" "leaf_in_store (large T) 0" "0 < leaf_count (large T) ! nat 0"
  "(1::int) < num_leaves (large T)" "leaf_range (large T) 0 = map int [0..<1025]"
  "num_data (large T) + 1024 < 2 ^ 31" "num_data (large T) + 2 * 32 < 2 ^ 31"
  "num_data (large T) + 2 * 2048 < 2 ^ 31"
  by (simp_all add: large_def DataPartition_new_def sized_def leaf_in_store_def leaf_range_def
      take_map)

lemma BlockInfo_1025: "BlockInfo 32 2 32 1025 1024 = (2, 544)"
  "BlockInfo 32 2 2048 1025 1024 = (2, 2048)"
  by (simp_all add: BlockInfo_def SIZE_ALIGNED_def iadd_def isub_def imul_def idiv_def wrap_def
      signed_divide_int_def Let_def)

lemma slices_large:
  "Split_slices 2 32 (map int [0..<1025]) = [map int [0..<544], map int [544..<1025]]"
  "Split_slices 2 2048 (map int [0..<1025]) = [map int [0..<1025], []]"
proof -
  have u: "[0..<2] = [0, 1]" by (simp add: upt_rec)
  show "Split_slices 2 32 (map int [0..<1025]) = [map int [0..<544], map int [544..<1025]]"
    by (simp add: Split_slices_def BlockInfo_1025 u block_slice_def take_map drop_map)
  show "Split_slices 2 2048 (map int [0..<1025]) = [map int [0..<1025], []]"
    by (simp add: Split_slices_def BlockInfo_1025 u block_slice_def take_map drop_map)
qed

lemma even_counts:
  "length (filter even (map int [0..<544])) = 272"
  "length (filter even (map int [544..<1025])) = 241"
  by code_simp+

text \<open>
  Claim C3, for a call that the store has room for. Let the vectors of the store have the
  sizes that the constructor gives them, with an entry in each per-thread buffer for each of
  the \<open>T \<ge> 1\<close> threads of the call (\<open>sized T s\<close>), let the alignment be \<open>A \<ge> 1\<close>, let
  \<open>num_data + 1024\<close> and \<open>num_data + T * A\<close> be below \<open>2 ^ 31\<close>, let \<open>leaf\<close> and \<open>right_leaf\<close>
  be different leaf ids of the store, and let \<open>leaf\<close> own the range of \<open>cnt > 0\<close> positions
  from \<open>begin\<close> on inside \<open>indices_\<close>. Then \<open>Split\<close> returns, and with \<open>total_left_count\<close>
  the sum of the left counts that the oracle returns for the blocks, afterwards
  \<open>leaf_count[leaf] = total_left_count\<close>, \<open>leaf_begin[right_leaf] = begin + total_left_count\<close>,
  \<open>leaf_count[right_leaf] = cnt - total_left_count\<close> and \<open>leaf_begin[leaf]\<close> is still \<open>begin\<close>.
\<close>

theorem Split_bookkeeping:
  assumes "sized T s" "1 \<le> A" "leaf_in_store s leaf" "0 < leaf_count s ! nat leaf"
    "0 \<le> right_leaf" "right_leaf < num_leaves s" "leaf \<noteq> right_leaf"
    and "num_data s + 1024 < 2 ^ 31" "num_data s + T * A < 2 ^ 31"
  shows "\<exists>s'. Split T A leaf orc right_leaf s = Inr s'
    \<and> leaf_count s' ! nat leaf
        = (\<Sum>xs\<leftarrow>Split_slices T A (leaf_range s leaf). int (length (fst (dataset_Split orc xs))))
    \<and> leaf_begin s' ! nat right_leaf
        = leaf_begin s ! nat leaf
          + (\<Sum>xs\<leftarrow>Split_slices T A (leaf_range s leaf). int (length (fst (dataset_Split orc xs))))
    \<and> leaf_count s' ! nat right_leaf
        = leaf_count s ! nat leaf
          - (\<Sum>xs\<leftarrow>Split_slices T A (leaf_range s leaf). int (length (fst (dataset_Split orc xs))))
    \<and> leaf_begin s' ! nat leaf = leaf_begin s ! nat leaf"
proof -
  from Split_result [OF assms(1-6,8,9), of orc] obtain s' where
    S: "Split T A leaf orc right_leaf s = Inr s'"
    and lc: "leaf_count s' = (leaf_count s)
          [nat leaf := int (length (routed_left orc (Split_slices T A (leaf_range s leaf)))),
           nat right_leaf := leaf_count s ! nat leaf
              - int (length (routed_left orc (Split_slices T A (leaf_range s leaf))))]"
    and lb: "leaf_begin s' = (leaf_begin s)
          [nat right_leaf := int (length (routed_left orc (Split_slices T A (leaf_range s leaf))))
              + leaf_begin s ! nat leaf]"
    by (elim exE conjE)
  have sz: "int (length (leaf_begin s)) = num_leaves s" "int (length (leaf_count s)) = num_leaves s"
    using assms(1) by (simp_all add: sized_def)
  have lf: "0 \<le> leaf" "leaf < num_leaves s" using assms(3) by (simp_all add: leaf_in_store_def)
  have ne: "nat leaf \<noteq> nat right_leaf" using assms(5,7) lf by simp
  have ix: "nat leaf < length (leaf_count s)" "nat right_leaf < length (leaf_count s)"
    "nat right_leaf < length (leaf_begin s)"
    using sz lf assms(5,6) by simp_all
  show ?thesis
    apply (rule exI [of _ s'])
    using ne ix by (simp add: S lc lb routed_left_sum)
qed

text \<open>
  Claim C9, for a call that the store has room for (\<open>sized T s\<close> for the \<open>T \<ge> 1\<close> threads of
  the call, alignment \<open>A \<ge> 1\<close>, \<open>num_data + 1024\<close> and \<open>num_data + T * A\<close> below \<open>2 ^ 31\<close>).
  \<open>Split\<close> with two different leaf ids of the store and a parent range of \<open>cnt > 0\<close>
  positions inside \<open>indices_\<close> returns and leaves every element of \<open>indices_\<close> outside the
  parent range as it was, and also \<open>leaf_begin_\<close> and \<open>leaf_count_\<close> of every leaf other than
  the two, \<open>num_data_\<close>, \<open>num_leaves_\<close> and the bagging reference.
\<close>

theorem Split_frame:
  assumes "sized T s" "1 \<le> A" "leaf_in_store s leaf" "0 < leaf_count s ! nat leaf"
    "0 \<le> right_leaf" "right_leaf < num_leaves s" "leaf \<noteq> right_leaf"
    and "num_data s + 1024 < 2 ^ 31" "num_data s + T * A < 2 ^ 31"
  shows "\<exists>s'. Split T A leaf orc right_leaf s = Inr s'
    \<and> length (indices s') = length (indices s)
    \<and> (\<forall>p<length (indices s).
          int p < leaf_begin s ! nat leaf
          \<or> leaf_begin s ! nat leaf + leaf_count s ! nat leaf \<le> int p
          \<longrightarrow> indices s' ! p = indices s ! p)
    \<and> length (leaf_begin s') = length (leaf_begin s)
    \<and> length (leaf_count s') = length (leaf_count s)
    \<and> (\<forall>l<length (leaf_begin s). l \<noteq> nat leaf \<and> l \<noteq> nat right_leaf
          \<longrightarrow> leaf_begin s' ! l = leaf_begin s ! l \<and> leaf_count s' ! l = leaf_count s ! l)
    \<and> num_data s' = num_data s \<and> num_leaves s' = num_leaves s
    \<and> used_data_indices s' = used_data_indices s \<and> used_data_count s' = used_data_count s"
proof -
  define b where "b = nat (leaf_begin s ! nat leaf)"
  define c where "c = nat (leaf_count s ! nat leaf)"
  define L where "L = routed_left orc (Split_slices T A (leaf_range s leaf))"
  define R where "R = routed_right orc (Split_slices T A (leaf_range s leaf))"
  from Split_result [OF assms(1-6,8,9), of orc] obtain s' where
    S: "Split T A leaf orc right_leaf s = Inr s'"
    and ix: "indices s' = take b (indices s) @ L @ R @ drop (b + c) (indices s)"
    and lc: "leaf_count s' = (leaf_count s)
          [nat leaf := int (length L), nat right_leaf := leaf_count s ! nat leaf - int (length L)]"
    and lb: "leaf_begin s' = (leaf_begin s) [nat right_leaf := int (length L) + leaf_begin s ! nat leaf]"
    and fr: "num_data s' = num_data s" "num_leaves s' = num_leaves s"
      "used_data_indices s' = used_data_indices s" "used_data_count s' = used_data_count s"
    unfolding b_def c_def L_def R_def by (elim exE conjE)
  have sz: "int (length (indices s)) = num_data s"
    "int (length (leaf_begin s)) = num_leaves s" "int (length (leaf_count s)) = num_leaves s"
    using assms(1) by (simp_all add: sized_def)
  have lf: "0 \<le> leaf_begin s ! nat leaf" "0 \<le> leaf_count s ! nat leaf"
    "leaf_begin s ! nat leaf + leaf_count s ! nat leaf \<le> num_data s"
    using assms(3) by (simp_all add: leaf_in_store_def)
  have fit: "b + c \<le> length (indices s)" using lf sz by (simp add: b_def c_def)
  have pc: "length (leaf_range s leaf) = c" using fit by (simp add: leaf_range_def b_def c_def)
  have T1: "1 \<le> T" using assms(1) by (simp add: sized_def)
  have r32: "int (length (leaf_range s leaf)) + 1024 < 2147483648"
    "int (length (leaf_range s leaf)) + T * A < 2147483648"
    using pc fit sz(1) assms(8,9) by simp_all
  have LR: "length L + length R = c"
    using routed_length [of orc "Split_slices T A (leaf_range s leaf)"]
      concat_Split_slices [OF T1 assms(2) r32] pc
    by (simp add: L_def R_def)
  have len: "length (indices s') = length (indices s)" using fit LR by (simp add: ix)
  have out: "indices s' ! p = indices s ! p"
    if p: "p < length (indices s)" and o: "int p < leaf_begin s ! nat leaf
      \<or> leaf_begin s ! nat leaf + leaf_count s ! nat leaf \<le> int p" for p
  proof -
    from o lf consider "p < b" | "b + c \<le> p" unfolding b_def c_def by linarith
    then show ?thesis
    proof cases
      case 1
      then show ?thesis using fit by (simp add: ix nth_append)
    next
      case 2
      have "indices s' = (take b (indices s) @ L @ R) @ drop (b + c) (indices s)" by (simp add: ix)
      moreover have "length (take b (indices s) @ L @ R) = b + c" using fit LR by simp
      ultimately have "indices s' ! p = drop (b + c) (indices s) ! (p - (b + c))"
        using 2 by (simp only: nth_append) simp
      then show ?thesis using 2 p by simp
    qed
  qed
  have others: "leaf_begin s' ! l = leaf_begin s ! l \<and> leaf_count s' ! l = leaf_count s ! l"
    if "l \<noteq> nat leaf \<and> l \<noteq> nat right_leaf" for l
    using that by (simp add: lc lb)
  show ?thesis
    apply (rule exI [of _ s'])
    using S len out others fr by (simp add: lc lb)
qed

text \<open>
  Claim C2, for a leaf that holds at least one id and a call that the store has room for
  (\<open>sized T s\<close> for the \<open>T \<ge> 1\<close> threads of the call, alignment \<open>A \<ge> 1\<close>, \<open>num_data + 1024\<close>
  and \<open>num_data + T * A\<close> below \<open>2 ^ 31\<close>, two different leaf ids of the store, the range of
  the leaf inside \<open>indices_\<close>). After \<open>Split\<close> the range of the leaf is what the oracle routed
  left, block after block, and the range of the right leaf is what it routed right; the
  blocks hand the oracle consecutive slices of the parent range. So both ranges are
  subsequences of the parent range (their ids keep the relative order they had there) and
  together they hold the ids of the parent range, for every such thread count \<open>T\<close> and
  alignment \<open>A\<close>, that is, for every number of blocks that the scheduler uses. For an oracle
  that decides by the id alone the two ranges are the two filters of the parent range.
\<close>

theorem Split_stable:
  assumes "sized T s" "1 \<le> A" "leaf_in_store s leaf" "0 < leaf_count s ! nat leaf"
    "0 \<le> right_leaf" "right_leaf < num_leaves s" "leaf \<noteq> right_leaf"
    and "num_data s + 1024 < 2 ^ 31" "num_data s + T * A < 2 ^ 31"
  shows "\<exists>s'. Split T A leaf orc right_leaf s = Inr s'
    \<and> concat (Split_slices T A (leaf_range s leaf)) = leaf_range s leaf
    \<and> leaf_range s' leaf = routed_left orc (Split_slices T A (leaf_range s leaf))
    \<and> leaf_range s' right_leaf = routed_right orc (Split_slices T A (leaf_range s leaf))
    \<and> subseq (leaf_range s' leaf) (leaf_range s leaf)
    \<and> subseq (leaf_range s' right_leaf) (leaf_range s leaf)
    \<and> mset (leaf_range s' leaf) + mset (leaf_range s' right_leaf) = mset (leaf_range s leaf)
    \<and> (\<forall>P. orc = (\<lambda>xs k. P (xs ! k)) \<longrightarrow>
          leaf_range s' leaf = filter P (leaf_range s leaf)
        \<and> leaf_range s' right_leaf = filter (\<lambda>x. \<not> P x) (leaf_range s leaf))"
proof -
  define b where "b = nat (leaf_begin s ! nat leaf)"
  define c where "c = nat (leaf_count s ! nat leaf)"
  define L where "L = routed_left orc (Split_slices T A (leaf_range s leaf))"
  define R where "R = routed_right orc (Split_slices T A (leaf_range s leaf))"
  from Split_result [OF assms(1-6,8,9), of orc] obtain s' where
    S: "Split T A leaf orc right_leaf s = Inr s'"
    and ix: "indices s' = take b (indices s) @ L @ R @ drop (b + c) (indices s)"
    and lc: "leaf_count s' = (leaf_count s)
          [nat leaf := int (length L), nat right_leaf := leaf_count s ! nat leaf - int (length L)]"
    and lb: "leaf_begin s' = (leaf_begin s) [nat right_leaf := int (length L) + leaf_begin s ! nat leaf]"
    unfolding b_def c_def L_def R_def by (elim exE conjE)
  have sz: "int (length (indices s)) = num_data s" "1 \<le> T"
    "int (length (leaf_begin s)) = num_leaves s" "int (length (leaf_count s)) = num_leaves s"
    using assms(1) by (simp_all add: sized_def)
  have lf: "0 \<le> leaf" "leaf < num_leaves s" "0 \<le> leaf_begin s ! nat leaf"
    "0 \<le> leaf_count s ! nat leaf"
    "leaf_begin s ! nat leaf + leaf_count s ! nat leaf \<le> num_data s"
    using assms(3) by (simp_all add: leaf_in_store_def)
  have ne: "nat leaf \<noteq> nat right_leaf" using assms(5,7) lf by simp
  have il: "nat leaf < length (leaf_count s)" "nat right_leaf < length (leaf_count s)"
    "nat right_leaf < length (leaf_begin s)" "nat leaf < length (leaf_begin s)"
    using sz lf assms(5,6) by simp_all
  have fit: "b + c \<le> length (indices s)" using lf sz by (simp add: b_def c_def)
  have pc: "length (leaf_range s leaf) = c" using fit by (simp add: leaf_range_def b_def c_def)
  have r32: "int (length (leaf_range s leaf)) + 1024 < 2147483648"
    "int (length (leaf_range s leaf)) + T * A < 2147483648"
    using pc fit sz(1) assms(8,9) by simp_all
  have cc: "concat (Split_slices T A (leaf_range s leaf)) = leaf_range s leaf"
    by (rule concat_Split_slices [OF sz(2) assms(2) r32])
  have LR: "length L + length R = c"
    using routed_length [of orc "Split_slices T A (leaf_range s leaf)"] pc
    by (simp add: L_def R_def cc)
  have cb: "leaf_count s ! nat leaf = int c" "leaf_begin s ! nat leaf = int b"
    using lf by (simp_all add: b_def c_def)
  have rl: "leaf_range s' leaf = L"
    using ne il fit LR by (simp add: leaf_range_def lc lb ix cb)
  have "int c - int (length L) = int (length R)" using LR by linarith
  then have rr: "leaf_range s' right_leaf = R"
    using ne il fit LR by (simp add: leaf_range_def lc lb ix cb nat_add_distrib)
  have s1: "subseq L (leaf_range s leaf)" "subseq R (leaf_range s leaf)"
    using routed_subseq [of orc "Split_slices T A (leaf_range s leaf)"]
    by (simp_all add: L_def R_def cc)
  have ms: "mset L + mset R = mset (leaf_range s leaf)"
    using routed_mset [of orc "Split_slices T A (leaf_range s leaf)"] by (simp add: L_def R_def cc)
  have byid: "L = filter P (leaf_range s leaf) \<and> R = filter (\<lambda>x. \<not> P x) (leaf_range s leaf)"
    if "orc = (\<lambda>xs k. P (xs ! k))" for P
    unfolding L_def R_def that by (simp add: routed_by_id cc)
  show ?thesis
    apply (rule exI [of _ s'])
    unfolding rl rr using S cc s1 ms byid by (simp add: L_def R_def)
qed

lemma scenario_ready:
  "sized 2 scenario" "leaf_in_store scenario 0" "0 < leaf_count scenario ! nat 0"
  "(1::int) < num_leaves scenario" "leaf_range scenario 0 = [0, 1, 2, 3, 4, 5, 6, 7]"
  "num_data scenario + 1024 < 2 ^ 31" "num_data scenario + 2 * 32 < 2 ^ 31"
  by (simp_all add: scenario_def DataPartition_new_def sized_def leaf_in_store_def leaf_range_def)

lemma bagged_ready:
  "sized 2 bagged" "leaf_in_store bagged 0" "0 < leaf_count bagged ! nat 0"
  "(1::int) < num_leaves bagged" "leaf_range bagged 0 = [5, 2, 9, 1, 7]"
  "num_data bagged + 1024 < 2 ^ 31" "num_data bagged + 2 * 32 < 2 ^ 31"
  by (simp_all add: bagged_def DataPartition_new_def sized_def leaf_in_store_def leaf_range_def)

lemma Split_slices_small:
  assumes "0 < length parent" "length parent \<le> 1024" "1 \<le> T"
  shows "Split_slices T A parent = [parent]"
proof -
  define n where "n = int (length parent)"
  have a: "0 < n" "n \<le> 1024" using assms by (simp_all add: n_def)
  have "(n - 1 + 1024) div 1024 = (n - 1) div 1024 + 1" by (rule div_add_self2) simp
  moreover have "(n - 1) div 1024 = 0" using a by (intro div_pos_pos_trivial) simp_all
  moreover have "n - 1 + 1024 = n + 1024 - 1" by simp
  ultimately have q: "(n + 1024 - 1) div 1024 = 1" by simp
  have 1: "iadd 32 n 1024 = n + 1024" using a by (intro iadd32_id) simp_all
  have 2: "isub 32 (n + 1024) 1 = n + 1024 - 1" using a by (intro isub32_id) simp_all
  have 3: "idiv 32 (n + 1024 - 1) 1024 = 1"
    using a idiv_id [of "n + 1024 - 1" 1024 32] by (simp add: q)
  have "wrap 32 (1::int) = 1" by (simp add: wrap32_id)
  then have q': "wrap 32 (idiv 32 (isub 32 (iadd 32 n 1024) 1) 1024) = 1" by (simp only: 1 2 3)
  have "BlockInfo 32 T A n 1024 = (1, n)"
    unfolding BlockInfo_def Let_def q' using assms(3) by simp
  then show ?thesis
    by (simp add: Split_slices_def block_slice_def n_def)
qed

theorem Split_bookkeeping_witness:
  "Split_slices 2 32 (leaf_range (large 2) 0) = [map int [0..<544], map int [544..<1025]]
   \<and> (\<exists>s'. Split 2 32 0 even_left 1 (large 2) = Inr s'
         \<and> leaf_count s' ! nat 0 = 272 + 241 \<and> leaf_begin s' ! nat 1 = 513
         \<and> leaf_count s' ! nat 1 = 512 \<and> leaf_begin s' ! nat 0 = 0)"
proof -
  have sl: "Split_slices 2 32 (leaf_range (large 2) 0) = [map int [0..<544], map int [544..<1025]]"
    by (simp only: large_ready(5) slices_large)
  have t: "(\<Sum>xs\<leftarrow>Split_slices 2 32 (leaf_range (large 2) 0).
      int (length (fst (dataset_Split even_left xs)))) = 513"
  proof -
    have d: "fst (dataset_Split even_left xs) = filter even xs" for xs
      by (simp add: dataset_Split_by_id even_left_def [abs_def])
    show ?thesis
      unfolding sl by (simp only: list.map sum_list.Cons sum_list.Nil d even_counts)
  qed
  have v: "leaf_begin (large 2) ! nat 0 = 0" "leaf_count (large 2) ! nat 0 = 1025"
    by (simp_all add: large_def DataPartition_new_def)
  have "\<exists>s'. Split 2 32 0 even_left 1 (large 2) = Inr s'
         \<and> leaf_count s' ! nat 0 = 272 + 241 \<and> leaf_begin s' ! nat 1 = 513
         \<and> leaf_count s' ! nat 1 = 512 \<and> leaf_begin s' ! nat 0 = 0"
    using Split_bookkeeping [of 2 "large 2" 32 0 1 even_left] large_ready
    unfolding t v by simp
  with sl show ?thesis by (rule conjI)
qed

theorem Split_frame_witness:
  "\<exists>s'. Split 2 32 0 even_left 1 (large 2) = Inr s'
    \<and> length (indices s') = 1030
    \<and> indices s' ! 1025 = 1025 \<and> indices s' ! 1027 = 1027 \<and> indices s' ! 1029 = 1029
    \<and> leaf_begin s' ! 2 = 1025 \<and> leaf_count s' ! 2 = 5
    \<and> num_data s' = 1030 \<and> num_leaves s' = 3
    \<and> used_data_indices s' = None \<and> used_data_count s' = 0"
proof -
  have h: "(1::int) \<le> 32" "(0::int) \<le> 1" "(0::int) \<noteq> 1" by simp_all
  from Split_frame [OF large_ready(1) h(1) large_ready(2,3) h(2) large_ready(4) h(3)
      large_ready(6,7), of even_left]
  obtain s' where S: "Split 2 32 0 even_left 1 (large 2) = Inr s'"
    and len: "length (indices s') = length (indices (large 2))"
    and out: "\<And>p. p < length (indices (large 2)) \<Longrightarrow>
          int p < leaf_begin (large 2) ! nat 0
          \<or> leaf_begin (large 2) ! nat 0 + leaf_count (large 2) ! nat 0 \<le> int p
          \<Longrightarrow> indices s' ! p = indices (large 2) ! p"
    and oth: "\<And>l. l < length (leaf_begin (large 2)) \<Longrightarrow> l \<noteq> nat 0 \<and> l \<noteq> nat 1
          \<Longrightarrow> leaf_begin s' ! l = leaf_begin (large 2) ! l \<and> leaf_count s' ! l = leaf_count (large 2) ! l"
    and fr: "num_data s' = num_data (large 2)" "num_leaves s' = num_leaves (large 2)"
      "used_data_indices s' = used_data_indices (large 2)"
      "used_data_count s' = used_data_count (large 2)"
    by (elim exE conjE) blast
  show ?thesis
    apply (rule exI [of _ s'])
    using S len out [of 1025] out [of 1027] out [of 1029] oth [of 2] fr
    by (simp add: large_def DataPartition_new_def)
qed

theorem Split_stable_witness:
  "(\<exists>s'. Split 2 32 0 even_left 1 bagged = Inr s'
      \<and> leaf_range s' 0 = [2] \<and> leaf_range s' 1 = [5, 9, 1, 7]
      \<and> subseq (leaf_range s' 0) [5, 2, 9, 1, 7] \<and> subseq (leaf_range s' 1) [5, 2, 9, 1, 7])
   \<and> (\<exists>s'. Split 2 32 0 even_left 1 (large 2) = Inr s'
      \<and> Split_slices 2 32 (leaf_range (large 2) 0) = [map int [0..<544], map int [544..<1025]]
      \<and> leaf_range s' 0 = filter even (map int [0..<1025])
      \<and> leaf_range s' 1 = filter odd (map int [0..<1025])
      \<and> subseq (leaf_range s' 0) (map int [0..<1025])
      \<and> subseq (leaf_range s' 1) (map int [0..<1025]))"
proof -
  have h: "(1::int) \<le> 32" "(0::int) \<le> 1" "(0::int) \<noteq> 1" by simp_all
  have e: "even_left = (\<lambda>xs k. even (xs ! k))" by (simp add: even_left_def fun_eq_iff)
  from Split_stable [OF bagged_ready(1) h(1) bagged_ready(2,3) h(2) bagged_ready(4) h(3)
      bagged_ready(6,7), of even_left]
  obtain s' where S: "Split 2 32 0 even_left 1 bagged = Inr s'"
    and sub: "subseq (leaf_range s' 0) (leaf_range bagged 0)"
      "subseq (leaf_range s' 1) (leaf_range bagged 0)"
    and byid: "\<And>P. even_left = (\<lambda>xs k. P (xs ! k)) \<Longrightarrow>
          leaf_range s' 0 = filter P (leaf_range bagged 0)
        \<and> leaf_range s' 1 = filter (\<lambda>x. \<not> P x) (leaf_range bagged 0)"
    by (elim exE conjE) blast
  have 1: "\<exists>s'. Split 2 32 0 even_left 1 bagged = Inr s'
      \<and> leaf_range s' 0 = [2] \<and> leaf_range s' 1 = [5, 9, 1, 7]
      \<and> subseq (leaf_range s' 0) [5, 2, 9, 1, 7] \<and> subseq (leaf_range s' 1) [5, 2, 9, 1, 7]"
    apply (rule exI [of _ s'])
    using S sub byid [OF e] by (simp add: bagged_ready)
  from Split_stable [OF large_ready(1) h(1) large_ready(2,3) h(2) large_ready(4) h(3)
      large_ready(6,7), of even_left]
  obtain s2 where S2: "Split 2 32 0 even_left 1 (large 2) = Inr s2"
    and sub2: "subseq (leaf_range s2 0) (leaf_range (large 2) 0)"
      "subseq (leaf_range s2 1) (leaf_range (large 2) 0)"
    and byid2: "\<And>P. even_left = (\<lambda>xs k. P (xs ! k)) \<Longrightarrow>
          leaf_range s2 0 = filter P (leaf_range (large 2) 0)
        \<and> leaf_range s2 1 = filter (\<lambda>x. \<not> P x) (leaf_range (large 2) 0)"
    by (elim exE conjE) blast
  have sl: "Split_slices 2 32 (leaf_range (large 2) 0) = [map int [0..<544], map int [544..<1025]]"
    by (simp only: large_ready(5) slices_large)
  have 2: "\<exists>s'. Split 2 32 0 even_left 1 (large 2) = Inr s'
      \<and> Split_slices 2 32 (leaf_range (large 2) 0) = [map int [0..<544], map int [544..<1025]]
      \<and> leaf_range s' 0 = filter even (map int [0..<1025])
      \<and> leaf_range s' 1 = filter odd (map int [0..<1025])
      \<and> subseq (leaf_range s' 0) (map int [0..<1025])
      \<and> subseq (leaf_range s' 1) (map int [0..<1025])"
    apply (rule exI [of _ s2])
    using S2 sub2 byid2 [OF e] sl by (simp add: large_ready(5))
  show ?thesis using 1 2 by (rule conjI)
qed

lemma split_block_no_offset:
  assumes "length (offsets_buf s) \<le> i"
    and "p < e" "b + e \<le> length (indices s)"
    and "e \<le> length (temp_left_indices s)" "e \<le> length (temp_right_indices s)"
    and r32: "int e < 2147483648"
  shows "split_block orc (int b) (int i) (int p) (int e) s = Inl (OutOfRange ''offsets_buf_'' (int i))"
proof -
  define xs where "xs = take (e - p) (drop (b + p) (indices s))"
  define l where "l = fst (dataset_Split orc xs)"
  define r where "r = snd (dataset_Split orc xs)"
  have len: "length xs = e - p" using assms by (simp add: xs_def)
  have lr: "length l + length r = e - p"
    using dataset_Split_length [of orc xs] by (simp add: l_def r_def len)
  have rd: "read_cells ''indices_'' (indices s) (int b + int p) (int e - int p) = Inr xs"
    using assms(2,3) by (simp add: read_cells_ok xs_def nat_diff_distrib nat_add_distrib)
  have wl: "write_cells ''temp_left_indices_'' (temp_left_indices s) (int p) l
      = Inr (put (temp_left_indices s) p l)"
    using assms(2,4) lr by (simp add: write_cells_ok)
  have wr: "write_cells ''temp_right_indices_'' (temp_right_indices s) (int p) r
      = Inr (put (temp_right_indices s) p r)"
    using assms(2,5) lr by (simp add: write_cells_ok)
  have c1: "isub 32 (int e) (int p) = int e - int p"
    using assms(2) r32 by (intro isub32_id) linarith+
  have vs: "vec_set ''offsets_buf_'' (offsets_buf s) (int i) (int p) = Inl (OutOfRange ''offsets_buf_'' (int i))"
    using assms(1) by (simp add: vec_set_def)
  show ?thesis
    using assms(2)
    by (simp add: split_block_def Let_def c1 rd wl wr vs split_def l_def [symmetric] r_def [symmetric])
qed

lemma Split_thread_overrun:
  "Split 2 32 0 orc 1 (large 1) = Inl (OutOfRange ''offsets_buf_'' 1)"
proof -
  define xs where "xs = take (544 - 0) (drop (0 + 0) (indices (large 1)))"
  define l where "l = fst (dataset_Split orc xs)"
  define r where "r = snd (dataset_Split orc xs)"
  define s1 where "s1 = (large 1)\<lparr>temp_left_indices := put (temp_left_indices (large 1)) 0 l,
            temp_right_indices := put (temp_right_indices (large 1)) 0 r,
            offsets_buf := (offsets_buf (large 1))[0 := int 0],
            left_cnts_buf := (left_cnts_buf (large 1))[0 := int (length l)],
            right_cnts_buf := (right_cnts_buf (large 1))[0 := int (length r)]\<rparr>"
  have len: "length xs = 544" by (simp add: xs_def large_def)
  have lr: "length l + length r = 544"
    using dataset_Split_length [of orc xs] by (simp add: l_def r_def len)
  have b0: "split_block orc (int 0) (int 0) (int 0) (int 544) (large 1) = Inr s1"
    unfolding s1_def
    by (rule split_block_nonempty [OF _ _ _ _ _ _ _ xs_def l_def r_def])
      (simp_all add: large_def DataPartition_new_def)
  have b1: "split_block orc (int 0) (int 1) (int 544) (int 1025) s1
      = Inl (OutOfRange ''offsets_buf_'' (int 1))"
    using lr by (intro split_block_no_offset) (simp_all add: s1_def large_def DataPartition_new_def)
  have bi: "BlockInfo 32 2 32 (int 1025) 1024 = (int 2, int 544)" by (simp add: BlockInfo_1025)
  have u: "[0..<2] = [0, 1]" by (simp add: upt_rec)
  have F: "For 32 2 32 0 1025 1024 (\<lambda>i p e s. returns (split_block orc 0 i p e s)) (large 1)
      = Inl (OutOfRange ''offsets_buf_'' 1)"
    using For_Split_nat [OF bi, of orc 0 "large 1"] b0 b1 by (simp add: u)
  show ?thesis
    by (simp add: Split_def vec_get_def large_def [where T = 1, THEN arg_cong, of leaf_begin]
        large_def [where T = 1, THEN arg_cong, of leaf_count] F)
qed

text \<open>
  Claim C3 as stated covers every call on a leaf with \<open>cnt > 0\<close>. The per-thread buffers
  have the size of the thread count at construction, and \<open>Threading::For\<close> asks OpenMP for
  the thread count again at every call. On the store \<open>large 1\<close>, constructed under one
  thread, a \<open>Split\<close> of leaf \<open>0\<close> under two threads runs two blocks, and the second block
  writes \<open>offsets_buf_[1]\<close>, outside the buffer: the call has no defined outcome.
\<close>

theorem Split_bookkeeping_thread_counterexample:
  "num_leaves (large 1) = 3 \<and> leaf_begin (large 1) ! 0 = 0 \<and> leaf_count (large 1) ! 0 = 1025
   \<and> length (offsets_buf (large 1)) = 1
   \<and> Split 2 32 0 even_left 1 (large 1) = Inl (OutOfRange ''offsets_buf_'' 1)"
  by (simp add: Split_thread_overrun) (simp add: large_def DataPartition_new_def)

text \<open>
  Claim C9 as stated covers every call with valid distinct leaf ids and \<open>cnt > 0\<close>. On the
  store \<open>large 1\<close>, constructed under one thread, a \<open>Split\<close> of leaf \<open>0\<close> under two threads
  writes \<open>offsets_buf_[1]\<close>, outside the buffer and so outside everything that the frame
  allows the call to change.
\<close>

theorem Split_frame_thread_counterexample:
  "sized 1 (large 1) \<and> leaf_in_store (large 1) 0 \<and> 0 < leaf_count (large 1) ! nat 0
   \<and> Split 2 32 0 all_left 1 (large 1) = Inl (OutOfRange ''offsets_buf_'' 1)"
  by (simp add: Split_thread_overrun large_ready)
    (simp add: large_def DataPartition_new_def sized_def)

lemma scratch_variant_fields:
  assumes "scratch_variant s s2"
  shows "num_data s2 = num_data s" "num_leaves s2 = num_leaves s" "leaf_begin s2 = leaf_begin s"
    "leaf_count s2 = leaf_count s" "indices s2 = indices s"
    "used_data_indices s2 = used_data_indices s" "used_data_count s2 = used_data_count s"
    "num_threads s2 = num_threads s"
    "length (temp_left_indices s2) = length (temp_left_indices s)"
    "length (temp_right_indices s2) = length (temp_right_indices s)"
    "length (offsets_buf s2) = length (offsets_buf s)"
    "length (left_cnts_buf s2) = length (left_cnts_buf s)"
    "length (right_cnts_buf s2) = length (right_cnts_buf s)"
    "length (left_write_pos_buf s2) = length (left_write_pos_buf s)"
    "length (right_write_pos_buf s2) = length (right_write_pos_buf s)"
  using assms by (simp_all add: scratch_variant_def contents_def)

text \<open>
  Claim C7, for a call that the store has room for (\<open>sized T s\<close> for the \<open>T \<ge> 1\<close> threads of
  the call, alignment \<open>A \<ge> 1\<close>, \<open>num_data + 1024\<close> and \<open>num_data + T * A\<close> below \<open>2 ^ 31\<close>, leaf
  ids of the store, the range of the leaf inside \<open>indices_\<close>), and with the entry of
  \<open>offsets_buf_\<close> of a block with an empty range excepted. Let \<open>s2\<close> be the store \<open>s\<close> with
  anything whatsoever in its scratch buffers (what earlier calls left in
  \<open>temp_left_indices_\<close>, \<open>temp_right_indices_\<close>, \<open>offsets_buf_\<close> and the count and position
  buffers). The outcome of \<open>Split\<close> on \<open>s2\<close> is the outcome on \<open>s\<close>: no leftover has an
  effect. After the block phase on \<open>s2\<close>, for each block \<open>i\<close> the cells that the merge step
  reads, the \<open>left_cnts_buf_[i]\<close> cells of \<open>temp_left_indices_\<close> and the \<open>right_cnts_buf_[i]\<close>
  cells of \<open>temp_right_indices_\<close> from \<open>offsets_buf_[i]\<close> on, hold what the oracle wrote for
  that block in this call. The entry \<open>offsets_buf_[i]\<close> that the merge step reads is the start
  of the block, written in this call, when the range of the block is not empty; when it is
  empty the entry is the one that \<open>s2\<close> held before the call, and the merge step reads it to
  transfer no cell.
\<close>

theorem Split_scratch_write_before_read:
  assumes "sized T s" "1 \<le> A" "leaf_in_store s leaf" "0 \<le> right_leaf"
    "right_leaf < num_leaves s" "scratch_variant s s2"
    and "num_data s + 1024 < 2 ^ 31" "num_data s + T * A < 2 ^ 31"
  shows "map_sum id contents (Split T A leaf orc right_leaf s2)
      = map_sum id contents (Split T A leaf orc right_leaf s)
    \<and> (0 < leaf_count s ! nat leaf \<longrightarrow>
        (\<exists>nb s1.
            For 32 T A 0 (leaf_count s ! nat leaf) 1024
              (\<lambda>i p e st. returns (split_block orc (leaf_begin s ! nat leaf) i p e st)) s2
              = Inr (Inr (int nb), s1)
          \<and> nb = length (Split_slices T A (leaf_range s leaf))
          \<and> (\<forall>i<nb.
                read_cells ''temp_left_indices_'' (temp_left_indices s1) (offsets_buf s1 ! i)
                  (left_cnts_buf s1 ! i)
                  = Inr (fst (dataset_Split orc (Split_slices T A (leaf_range s leaf) ! i)))
              \<and> read_cells ''temp_right_indices_'' (temp_right_indices s1) (offsets_buf s1 ! i)
                  (right_cnts_buf s1 ! i)
                  = Inr (snd (dataset_Split orc (Split_slices T A (leaf_range s leaf) ! i)))
              \<and> offsets_buf s1 ! i
                  = (if Split_slices T A (leaf_range s leaf) ! i = [] then offsets_buf s2 ! i
                     else int i * snd (BlockInfo 32 T A (leaf_count s ! nat leaf) 1024)))))"
proof -
  note v = scratch_variant_fields [OF assms(6)]
  have sz: "0 \<le> num_data s" "int (length (indices s)) = num_data s"
    "int (length (temp_left_indices s)) = num_data s"
    "int (length (temp_right_indices s)) = num_data s"
    "int (length (leaf_begin s)) = num_leaves s" "int (length (leaf_count s)) = num_leaves s"
    "1 \<le> T" "T \<le> int (length (offsets_buf s))" "T \<le> int (length (left_cnts_buf s))"
    "T \<le> int (length (right_cnts_buf s))" "T \<le> int (length (left_write_pos_buf s))"
    "T \<le> int (length (right_write_pos_buf s))"
    using assms(1) by (simp_all add: sized_def)
  have lf: "0 \<le> leaf" "leaf < num_leaves s" "0 \<le> leaf_begin s ! nat leaf"
    "0 \<le> leaf_count s ! nat leaf"
    "leaf_begin s ! nat leaf + leaf_count s ! nat leaf \<le> num_data s"
    using assms(3) by (simp_all add: leaf_in_store_def)
  have sized2: "sized T s2" using assms(1) by (simp add: sized_def v)
  have lis2: "leaf_in_store s2 leaf" using assms(3) by (simp add: leaf_in_store_def v)
  have lr2: "leaf_range s2 leaf = leaf_range s leaf" by (simp add: leaf_range_def v)
  have rng2: "num_data s2 + 1024 < 2 ^ 31" "num_data s2 + T * A < 2 ^ 31"
    using assms(7,8) by (simp_all only: v)
  have 1: "map_sum id contents (Split T A leaf orc right_leaf s2)
      = map_sum id contents (Split T A leaf orc right_leaf s)"
  proof (cases "0 < leaf_count s ! nat leaf")
    case True
    from Split_result [OF assms(1-3) True assms(4,5,7,8), of orc] obtain s' where
      S: "Split T A leaf orc right_leaf s = Inr s'"
      and c: "indices s' = take (nat (leaf_begin s ! nat leaf)) (indices s)
          @ routed_left orc (Split_slices T A (leaf_range s leaf))
          @ routed_right orc (Split_slices T A (leaf_range s leaf))
          @ drop (nat (leaf_begin s ! nat leaf) + nat (leaf_count s ! nat leaf)) (indices s)"
        "leaf_count s' = (leaf_count s)
          [nat leaf := int (length (routed_left orc (Split_slices T A (leaf_range s leaf)))),
           nat right_leaf := leaf_count s ! nat leaf
              - int (length (routed_left orc (Split_slices T A (leaf_range s leaf))))]"
        "leaf_begin s' = (leaf_begin s)
          [nat right_leaf := int (length (routed_left orc (Split_slices T A (leaf_range s leaf))))
              + leaf_begin s ! nat leaf]"
        "num_data s' = num_data s" "num_leaves s' = num_leaves s"
        "used_data_indices s' = used_data_indices s" "used_data_count s' = used_data_count s"
        "num_threads s' = num_threads s"
      by (elim exE conjE)
    have True2: "0 < leaf_count s2 ! nat leaf" using True by (simp add: v)
    have r2: "right_leaf < num_leaves s2" using assms(5) by (simp add: v)
    from Split_result [OF sized2 assms(2) lis2 True2 assms(4) r2 rng2, of orc] obtain s2' where
      S2: "Split T A leaf orc right_leaf s2 = Inr s2'"
      and c2: "indices s2' = take (nat (leaf_begin s2 ! nat leaf)) (indices s2)
          @ routed_left orc (Split_slices T A (leaf_range s2 leaf))
          @ routed_right orc (Split_slices T A (leaf_range s2 leaf))
          @ drop (nat (leaf_begin s2 ! nat leaf) + nat (leaf_count s2 ! nat leaf)) (indices s2)"
        "leaf_count s2' = (leaf_count s2)
          [nat leaf := int (length (routed_left orc (Split_slices T A (leaf_range s2 leaf)))),
           nat right_leaf := leaf_count s2 ! nat leaf
              - int (length (routed_left orc (Split_slices T A (leaf_range s2 leaf))))]"
        "leaf_begin s2' = (leaf_begin s2)
          [nat right_leaf := int (length (routed_left orc (Split_slices T A (leaf_range s2 leaf))))
              + leaf_begin s2 ! nat leaf]"
        "num_data s2' = num_data s2" "num_leaves s2' = num_leaves s2"
        "used_data_indices s2' = used_data_indices s2" "used_data_count s2' = used_data_count s2"
        "num_threads s2' = num_threads s2"
      by (elim exE conjE)
    have "contents s2' = contents s'"
      unfolding contents_def c c2 lr2 v ..
    then show ?thesis by (simp add: S S2)
  next
    case False
    then have z: "leaf_count s ! nat leaf = 0" using lf by simp
    have ne: "left_write_pos_buf s \<noteq> []" "right_write_pos_buf s \<noteq> []"
      using sz by auto
    have ne2: "left_write_pos_buf s2 \<noteq> []" "right_write_pos_buf s2 \<noteq> []"
      using ne v by (metis length_0_conv)+
    have "Split T A leaf orc right_leaf s = Inl (OutOfRange ''left_write_pos_buf_'' (- 1))"
      using lf sz z ne by (intro Split_empty_leaf) simp_all
    moreover have "Split T A leaf orc right_leaf s2 = Inl (OutOfRange ''left_write_pos_buf_'' (- 1))"
      using lf sz z ne2 by (intro Split_empty_leaf) (simp_all add: v)
    ultimately show ?thesis by simp
  qed
  have 2: "\<exists>nb s1.
            For 32 T A 0 (leaf_count s ! nat leaf) 1024
              (\<lambda>i p e st. returns (split_block orc (leaf_begin s ! nat leaf) i p e st)) s2
              = Inr (Inr (int nb), s1)
          \<and> nb = length (Split_slices T A (leaf_range s leaf))
          \<and> (\<forall>i<nb.
                read_cells ''temp_left_indices_'' (temp_left_indices s1) (offsets_buf s1 ! i)
                  (left_cnts_buf s1 ! i)
                  = Inr (fst (dataset_Split orc (Split_slices T A (leaf_range s leaf) ! i)))
              \<and> read_cells ''temp_right_indices_'' (temp_right_indices s1) (offsets_buf s1 ! i)
                  (right_cnts_buf s1 ! i)
                  = Inr (snd (dataset_Split orc (Split_slices T A (leaf_range s leaf) ! i)))
              \<and> offsets_buf s1 ! i
                  = (if Split_slices T A (leaf_range s leaf) ! i = [] then offsets_buf s2 ! i
                     else int i * snd (BlockInfo 32 T A (leaf_count s ! nat leaf) 1024)))"
    if pos: "0 < leaf_count s ! nat leaf"
  proof -
    define b where "b = nat (leaf_begin s ! nat leaf)"
    define c where "c = nat (leaf_count s ! nat leaf)"
    have ib: "leaf_begin s ! nat leaf = int b" "leaf_count s ! nat leaf = int c"
      using lf by (simp_all add: b_def c_def)
    have c0: "0 < c" using pos by (simp add: c_def)
    have fit: "b + c \<le> length (indices s2)" "c \<le> length (temp_left_indices s2)"
      "c \<le> length (temp_right_indices s2)"
      unfolding v using lf sz ib by linarith+
    have szT: "T \<le> int (length (offsets_buf s2))" "T \<le> int (length (left_cnts_buf s2))"
      "T \<le> int (length (right_cnts_buf s2))"
      unfolding v by (rule sz(8) sz(9) sz(10))+
    have pr: "leaf_range s leaf = take c (drop b (indices s2))"
      by (simp add: leaf_range_def b_def c_def v)
    have pc: "length (leaf_range s leaf) = c" using fit by (simp add: pr)
    have r32: "int c + 1024 < 2147483648" "int c + T * A < 2147483648" "int c < 2147483648"
      using lf(3,5) ib assms(7,8) by simp_all
    obtain nb bs where bi: "BlockInfo 32 T A (int c) 1024 = (int nb, int bs)" "0 < nb" "0 < bs"
      "int nb \<le> T" "c \<le> nb * bs" "int (nb * bs) < 2147483648"
      by (rule BlockInfo_nat [OF sz(7) assms(2) c0 r32(1,2)])
    have slices: "Split_slices T A (leaf_range s leaf) = map (block_slice bs (leaf_range s leaf)) [0..<nb]"
      using bi(1) by (intro Split_slices_nat) (simp add: pc)
    from For_split_block [OF bi(1,3,4) fit szT pr r32(3) bi(6), of orc]
    obtain tl tr ob lc rc where
      F: "For 32 T A 0 (int c) 1024 (\<lambda>i p e s. returns (split_block orc (int b) i p e s)) s2
        = Inr (Inr (int nb), s2\<lparr>temp_left_indices := tl, temp_right_indices := tr, offsets_buf := ob,
                 left_cnts_buf := lc, right_cnts_buf := rc\<rparr>)"
      and rd: "\<And>i. i < nb \<Longrightarrow>
               read_cells ''temp_left_indices_'' tl (ob ! i) (lc ! i)
                  = Inr (fst (dataset_Split orc (block_slice bs (leaf_range s leaf) i)))
             \<and> read_cells ''temp_right_indices_'' tr (ob ! i) (rc ! i)
                  = Inr (snd (dataset_Split orc (block_slice bs (leaf_range s leaf) i)))
             \<and> ob ! i = (if block_slice bs (leaf_range s leaf) i = [] then offsets_buf s2 ! i
                          else int (i * bs))"
      by (elim exE conjE) blast
    define s1 where "s1 = s2\<lparr>temp_left_indices := tl, temp_right_indices := tr, offsets_buf := ob,
                 left_cnts_buf := lc, right_cnts_buf := rc\<rparr>"
    have f1: "temp_left_indices s1 = tl" "temp_right_indices s1 = tr" "offsets_buf s1 = ob"
      "left_cnts_buf s1 = lc" "right_cnts_buf s1 = rc"
      by (simp_all add: s1_def)
    have F': "For 32 T A 0 (leaf_count s ! nat leaf) 1024
              (\<lambda>i p e st. returns (split_block orc (leaf_begin s ! nat leaf) i p e st)) s2
              = Inr (Inr (int nb), s1)"
      unfolding ib s1_def by (rule F)
    have N: "nb = length (Split_slices T A (leaf_range s leaf))" by (simp add: slices)
    have sn: "Split_slices T A (leaf_range s leaf) ! i = block_slice bs (leaf_range s leaf) i"
      if "i < nb" for i using that by (simp add: slices)
    have bsv: "snd (BlockInfo 32 T A (leaf_count s ! nat leaf) 1024) = int bs"
      by (simp add: ib bi(1))
    have R: "\<forall>i<nb.
                read_cells ''temp_left_indices_'' (temp_left_indices s1) (offsets_buf s1 ! i)
                  (left_cnts_buf s1 ! i)
                  = Inr (fst (dataset_Split orc (Split_slices T A (leaf_range s leaf) ! i)))
              \<and> read_cells ''temp_right_indices_'' (temp_right_indices s1) (offsets_buf s1 ! i)
                  (right_cnts_buf s1 ! i)
                  = Inr (snd (dataset_Split orc (Split_slices T A (leaf_range s leaf) ! i)))
              \<and> offsets_buf s1 ! i
                  = (if Split_slices T A (leaf_range s leaf) ! i = [] then offsets_buf s2 ! i
                     else int i * snd (BlockInfo 32 T A (leaf_count s ! nat leaf) 1024))"
    proof (intro allI impI)
      fix i assume i: "i < nb"
      have m: "int (i * bs) = int i * int bs" by simp
      from rd [OF i] have a: "read_cells ''temp_left_indices_'' tl (ob ! i) (lc ! i)
                  = Inr (fst (dataset_Split orc (block_slice bs (leaf_range s leaf) i)))"
        and b: "read_cells ''temp_right_indices_'' tr (ob ! i) (rc ! i)
                  = Inr (snd (dataset_Split orc (block_slice bs (leaf_range s leaf) i)))"
        and c: "ob ! i = (if block_slice bs (leaf_range s leaf) i = [] then offsets_buf s2 ! i
                          else int i * int bs)"
        unfolding m by blast+
      show "read_cells ''temp_left_indices_'' (temp_left_indices s1) (offsets_buf s1 ! i)
                  (left_cnts_buf s1 ! i)
                  = Inr (fst (dataset_Split orc (Split_slices T A (leaf_range s leaf) ! i)))
              \<and> read_cells ''temp_right_indices_'' (temp_right_indices s1) (offsets_buf s1 ! i)
                  (right_cnts_buf s1 ! i)
                  = Inr (snd (dataset_Split orc (Split_slices T A (leaf_range s leaf) ! i)))
              \<and> offsets_buf s1 ! i
                  = (if Split_slices T A (leaf_range s leaf) ! i = [] then offsets_buf s2 ! i
                     else int i * snd (BlockInfo 32 T A (leaf_count s ! nat leaf) 1024))"
        unfolding f1 sn [OF i] bsv using a b c by (intro conjI)
    qed
    show ?thesis
      using F' N R by (intro exI conjI)
  qed
  show ?thesis using 1 2 by blast
qed

lemma stale_variant: "scratch_variant (large 2) stale"
  by (simp add: scratch_variant_def contents_def stale_def large_def DataPartition_new_def)

theorem Split_scratch_write_before_read_witness:
  "map_sum id contents (Split 2 2048 0 even_left 1 stale)
     = map_sum id contents (Split 2 2048 0 even_left 1 (large 2))
   \<and> (\<exists>s1. For 32 2 2048 0 1025 1024
               (\<lambda>i p e st. returns (split_block even_left 0 i p e st)) stale = Inr (Inr 2, s1)
        \<and> read_cells ''temp_left_indices_'' (temp_left_indices s1) (offsets_buf s1 ! 0)
             (left_cnts_buf s1 ! 0) = Inr (filter even (map int [0..<1025]))
        \<and> read_cells ''temp_right_indices_'' (temp_right_indices s1) (offsets_buf s1 ! 0)
             (right_cnts_buf s1 ! 0) = Inr (filter odd (map int [0..<1025]))
        \<and> offsets_buf s1 ! 0 = 0
        \<and> read_cells ''temp_left_indices_'' (temp_left_indices s1) (offsets_buf s1 ! 1)
             (left_cnts_buf s1 ! 1) = Inr []
        \<and> read_cells ''temp_right_indices_'' (temp_right_indices s1) (offsets_buf s1 ! 1)
             (right_cnts_buf s1 ! 1) = Inr []
        \<and> offsets_buf s1 ! 1 = 9)"
proof -
  have h: "(1::int) \<le> 2048" "(0::int) \<le> 1" by simp_all
  have sl: "Split_slices 2 2048 (leaf_range (large 2) 0) = [map int [0..<1025], []]"
    by (simp only: large_ready(5) slices_large)
  have d: "dataset_Split even_left xs = (filter even xs, filter odd xs)" for xs
    by (simp add: dataset_Split_by_id even_left_def [abs_def])
  have v: "leaf_begin (large 2) ! nat 0 = 0" "leaf_count (large 2) ! nat 0 = 1025"
    by (simp_all add: large_def DataPartition_new_def)
  have o: "offsets_buf stale ! 1 = 9" by (simp add: stale_def)
  note t = Split_scratch_write_before_read
      [OF large_ready(1) h(1) large_ready(2) h(2) large_ready(4) stale_variant large_ready(6,8),
       of even_left, unfolded v sl BlockInfo_1025 snd_conv]
  from t have 1: "map_sum id contents (Split 2 2048 0 even_left 1 stale)
     = map_sum id contents (Split 2 2048 0 even_left 1 (large 2))"
    by (elim conjE)
  from t obtain nb s1 where
    F: "For 32 2 2048 0 1025 1024 (\<lambda>i p e st. returns (split_block even_left 0 i p e st)) stale
        = Inr (Inr (int nb), s1)"
    and nb: "nb = length [map int [0..<1025], []]"
    and rd: "\<And>i. i < nb \<Longrightarrow>
        read_cells ''temp_left_indices_'' (temp_left_indices s1) (offsets_buf s1 ! i)
             (left_cnts_buf s1 ! i)
          = Inr (fst (dataset_Split even_left ([map int [0..<1025], []] ! i)))
      \<and> read_cells ''temp_right_indices_'' (temp_right_indices s1) (offsets_buf s1 ! i)
             (right_cnts_buf s1 ! i)
          = Inr (snd (dataset_Split even_left ([map int [0..<1025], []] ! i)))
      \<and> offsets_buf s1 ! i
          = (if [map int [0..<1025], []] ! i = [] then offsets_buf stale ! i else int i * 2048)"
    by auto
  have n2: "nb = 2" using nb by simp
  have 2: "\<exists>s1. For 32 2 2048 0 1025 1024
               (\<lambda>i p e st. returns (split_block even_left 0 i p e st)) stale = Inr (Inr 2, s1)
        \<and> read_cells ''temp_left_indices_'' (temp_left_indices s1) (offsets_buf s1 ! 0)
             (left_cnts_buf s1 ! 0) = Inr (filter even (map int [0..<1025]))
        \<and> read_cells ''temp_right_indices_'' (temp_right_indices s1) (offsets_buf s1 ! 0)
             (right_cnts_buf s1 ! 0) = Inr (filter odd (map int [0..<1025]))
        \<and> offsets_buf s1 ! 0 = 0
        \<and> read_cells ''temp_left_indices_'' (temp_left_indices s1) (offsets_buf s1 ! 1)
             (left_cnts_buf s1 ! 1) = Inr []
        \<and> read_cells ''temp_right_indices_'' (temp_right_indices s1) (offsets_buf s1 ! 1)
             (right_cnts_buf s1 ! 1) = Inr []
        \<and> offsets_buf s1 ! 1 = 9"
  proof -
    have F2: "For 32 2 2048 0 1025 1024
        (\<lambda>i p e st. returns (split_block even_left 0 i p e st)) stale = Inr (Inr 2, s1)"
      using F by (simp add: n2)
    have i0: "(0::nat) < nb" "(1::nat) < nb" by (simp_all add: n2)
    have e0: "[map int [0..<1025], []] ! 0 = map int [0..<1025]"
      "[map int [0..<1025], []::int list] ! 1 = []"
      "fst (dataset_Split even_left []) = []" "snd (dataset_Split even_left []) = []"
      by simp_all
    have ne: "map int [0..<1025] \<noteq> []" by simp
    have z0: "(if map int [0..<1025] = [] then offsets_buf stale ! 0 else int 0 * 2048) = 0"
      "(if ([]::int list) = [] then offsets_buf stale ! 1 else int 1 * 2048) = 9"
      using ne by (simp_all add: stale_def)
    from rd [OF i0(1)] have a0: "read_cells ''temp_left_indices_'' (temp_left_indices s1) (offsets_buf s1 ! 0)
             (left_cnts_buf s1 ! 0) = Inr (filter even (map int [0..<1025]))"
      and b0: "read_cells ''temp_right_indices_'' (temp_right_indices s1) (offsets_buf s1 ! 0)
             (right_cnts_buf s1 ! 0) = Inr (filter odd (map int [0..<1025]))"
      and c0: "offsets_buf s1 ! 0 = 0"
      unfolding e0 d fst_conv snd_conv z0 by blast+
    from rd [OF i0(2)] have a1: "read_cells ''temp_left_indices_'' (temp_left_indices s1) (offsets_buf s1 ! 1)
             (left_cnts_buf s1 ! 1) = Inr []"
      and b1: "read_cells ''temp_right_indices_'' (temp_right_indices s1) (offsets_buf s1 ! 1)
             (right_cnts_buf s1 ! 1) = Inr []"
      and c1: "offsets_buf s1 ! 1 = 9"
      unfolding e0 z0 by blast+
    show ?thesis using F2 a0 b0 c0 a1 b1 c1 by (intro exI conjI)
  qed
  show ?thesis using 1 2 by (rule conjI)
qed

lemma dataset_Split_all_left: "dataset_Split all_left xs = (xs, [])"
  by (simp add: dataset_Split_def all_left_def map_nth)

lemma For_sparse:
  assumes "indices X = map int [0..<1030]" "length (temp_left_indices X) = 1030"
    "length (temp_right_indices X) = 1030" "offsets_buf X \<noteq> []"
    "length (left_cnts_buf X) = 2" "length (right_cnts_buf X) = 2"
  shows "For 32 2 2048 0 1025 1024 (\<lambda>i p e st. returns (split_block all_left 0 i p e st)) X
    = Inr (Inr 2, X\<lparr>temp_left_indices := put (temp_left_indices X) 0 (map int [0..<1025]),
                      temp_right_indices := put (temp_right_indices X) 0 [],
                      offsets_buf := (offsets_buf X)[0 := 0],
                      left_cnts_buf := (left_cnts_buf X)[0 := 1025, 1 := 0],
                      right_cnts_buf := (right_cnts_buf X)[0 := 0, 1 := 0]\<rparr>)"
proof -
  define X1 where "X1 = X\<lparr>temp_left_indices := put (temp_left_indices X) 0 (map int [0..<1025]),
      temp_right_indices := put (temp_right_indices X) 0 [],
      offsets_buf := (offsets_buf X)[0 := int 0],
      left_cnts_buf := (left_cnts_buf X)[0 := int (length (map int [0..<1025]))],
      right_cnts_buf := (right_cnts_buf X)[0 := int (length ([]::int list))]\<rparr>"
  have xs: "map int [0..<1025] = take (1025 - 0) (drop (0 + 0) (indices X))"
    by (simp add: assms(1) take_map)
  have l: "map int [0..<1025] = fst (dataset_Split all_left (map int [0..<1025]))"
    and r: "[] = snd (dataset_Split all_left (map int [0..<1025]))"
    by (simp_all add: dataset_Split_all_left)
  have b0: "split_block all_left (int 0) (int 0) (int 0) (int 1025) X = Inr X1"
    unfolding X1_def
    by (rule split_block_nonempty [OF _ _ _ _ _ _ _ xs l r]) (use assms in simp_all)
  have b1: "split_block all_left (int 0) (int 1) (int 2048) (int 1025) X1
      = Inr (X1\<lparr>left_cnts_buf := (left_cnts_buf X1)[1 := 0],
                 right_cnts_buf := (right_cnts_buf X1)[1 := 0]\<rparr>)"
    by (rule split_block_empty) (use assms in \<open>simp_all add: X1_def\<close>)
  have bi: "BlockInfo 32 2 2048 (int 1025) 1024 = (int 2, int 2048)" by (simp add: BlockInfo_1025)
  have u: "[0..<2] = [0, 1]" by (simp add: upt_rec)
  show ?thesis
    using For_Split_nat [OF bi, of all_left 0 X] b0 b1 by (simp add: u X1_def)
qed

text \<open>
  Claim C7 as stated says that the entry of \<open>offsets_buf_\<close> of a block with an empty range,
  left over from an earlier call, is never read. Under two threads and the alignment \<open>2048\<close>
  a \<open>Split\<close> of the \<open>1025\<close> ids of leaf \<open>0\<close> runs two blocks, the second with an empty range.
  On the store \<open>stale\<close> the block phase writes \<open>offsets_buf_[0]\<close> only: entry \<open>1\<close> still
  holds the leftover \<open>9\<close>. On the store \<open>probe\<close>, whose \<open>offsets_buf_\<close> has no entry \<open>1\<close>, the
  block phase runs through in the same way; the merge step then reads \<open>offsets_buf_[1]\<close>, and
  \<open>Split\<close> ends in this access outside the buffer.
\<close>

theorem Split_stale_offset_counterexample:
  "map_sum id (\<lambda>(r, s1). (r, offsets_buf s1, left_cnts_buf s1, right_cnts_buf s1))
       (For 32 2 2048 0 1025 1024 (\<lambda>i p e st. returns (split_block all_left 0 i p e st)) stale)
     = Inr (Inr 2, [0, 9], [1025, 0], [0, 0])
   \<and> map_sum id (\<lambda>(r, s1). (r, offsets_buf s1, left_cnts_buf s1, right_cnts_buf s1))
       (For 32 2 2048 0 1025 1024 (\<lambda>i p e st. returns (split_block all_left 0 i p e st)) probe)
     = Inr (Inr 2, [0], [1025, 0], [0, 0])
   \<and> Split 2 2048 0 all_left 1 probe = Inl (OutOfRange ''offsets_buf_'' 1)"
proof -
  have F1: "For 32 2 2048 0 1025 1024 (\<lambda>i p e st. returns (split_block all_left 0 i p e st)) stale
    = Inr (Inr 2, stale\<lparr>temp_left_indices := put (temp_left_indices stale) 0 (map int [0..<1025]),
                      temp_right_indices := put (temp_right_indices stale) 0 [],
                      offsets_buf := (offsets_buf stale)[0 := 0],
                      left_cnts_buf := (left_cnts_buf stale)[0 := 1025, 1 := 0],
                      right_cnts_buf := (right_cnts_buf stale)[0 := 0, 1 := 0]\<rparr>)"
    by (rule For_sparse) (simp_all add: stale_def large_def DataPartition_new_def)
  have F2: "For 32 2 2048 0 1025 1024 (\<lambda>i p e st. returns (split_block all_left 0 i p e st)) probe
    = Inr (Inr 2, probe\<lparr>temp_left_indices := put (temp_left_indices probe) 0 (map int [0..<1025]),
                      temp_right_indices := put (temp_right_indices probe) 0 [],
                      offsets_buf := (offsets_buf probe)[0 := 0],
                      left_cnts_buf := (left_cnts_buf probe)[0 := 1025, 1 := 0],
                      right_cnts_buf := (right_cnts_buf probe)[0 := 0, 1 := 0]\<rparr>)"
    by (rule For_sparse) (simp_all add: probe_def stale_def large_def DataPartition_new_def)
  have 1: "map_sum id (\<lambda>(r, s1). (r, offsets_buf s1, left_cnts_buf s1, right_cnts_buf s1))
       (For 32 2 2048 0 1025 1024 (\<lambda>i p e st. returns (split_block all_left 0 i p e st)) stale)
     = Inr (Inr 2, [0, 9], [1025, 0], [0, 0])"
    unfolding F1 by (simp add: stale_def)
  have 2: "map_sum id (\<lambda>(r, s1). (r, offsets_buf s1, left_cnts_buf s1, right_cnts_buf s1))
       (For 32 2 2048 0 1025 1024 (\<lambda>i p e st. returns (split_block all_left 0 i p e st)) probe)
     = Inr (Inr 2, [0], [1025, 0], [0, 0])"
    unfolding F2 by (simp add: probe_def stale_def)
  have B: "vec_get ''leaf_begin_'' (leaf_begin probe) 0 = Inr 0"
    "vec_get ''leaf_count_'' (leaf_count probe) 0 = Inr 1025"
    by (simp_all add: vec_get_def probe_def stale_def large_def DataPartition_new_def)
  have w: "iadd 32 0 1025 = 1025" "iadd 32 0 0 = 0" "isub 32 2 1 = 1" "iadd 32 1025 0 = 1025"
    by (simp_all add: iadd_def isub_def wrap_def)
  have u: "[Suc 0..<2] = [1]" "[0..<2] = [0, 1]" by (simp_all add: upt_rec)
  have ne: "map int [0..<1025] \<noteq> []" by simp
  have 3: "Split 2 2048 0 all_left 1 probe = Inl (OutOfRange ''offsets_buf_'' 1)"
    unfolding Split_def B bindR_Inr F2 prod.case sum.case
    by (simp add: vec_set_def vec_get_def write_pos_step_def merge_block_def read_cells_def
        write_cells_def w u probe_def stale_def large_def DataPartition_new_def put_def take_map)
  show ?thesis using 1 2 3 by (intro conjI)
qed

lemma fill_identity_loop:
  "k \<le> length v \<Longrightarrow>
     foldR (\<lambda>i v. vec_set ''indices_'' v (int i) (int i)) [0..<k] v
       = Inr (map int [0..<k] @ drop k v)"
proof (induction k)
  case 0
  show ?case by simp
next
  case (Suc k)
  then have run: "foldR (\<lambda>i v. vec_set ''indices_'' v (int i) (int i)) [0..<k] v
       = Inr (map int [0..<k] @ drop k v)" by simp
  have "(map int [0..<k] @ drop k v)[k := int k] = map int [0..<Suc k] @ drop (Suc k) v"
    using Suc.prems by (simp add: list_update_append Cons_nth_drop_Suc [symmetric])
  then have "vec_set ''indices_'' (map int [0..<k] @ drop k v) (int k) (int k)
      = Inr (map int [0..<Suc k] @ drop (Suc k) v)"
    using Suc.prems by (simp add: vec_set_def)
  then show ?case
    using foldR_snoc [OF run, of k] by (simp only: upt_Suc_append [OF le0])
qed

lemma fill_identity_ok:
  "0 \<le> n \<Longrightarrow> n \<le> int (length v)
     \<Longrightarrow> fill_identity n v = Inr (map int [0..<nat n] @ drop (nat n) v)"
  using fill_identity_loop [of "nat n" v] by (simp add: fill_identity_def foldR_map)

lemma memcpy_ok:
  "0 \<le> n \<Longrightarrow> n \<le> int (length src) \<Longrightarrow> n \<le> int (length dst)
     \<Longrightarrow> memcpy dst src n = Inr (take (nat n) src @ drop (nat n) dst)"
proof -
  assume n: "0 \<le> n" "n \<le> int (length src)" "n \<le> int (length dst)"
  have r: "read_cells ''used_data_indices_'' src 0 n = Inr (take (nat n) src)"
    using n by (cases "n = 0") (simp_all add: read_cells_def)
  have l: "length (take (nat n) src) = nat n" using n by simp
  have w: "write_cells ''indices_'' dst 0 (take (nat n) src)
      = Inr (take (nat n) src @ drop (nat n) dst)"
  proof (cases "take (nat n) src = []")
    case True
    then have "nat n = 0" using l by (simp only: list.size)
    then show ?thesis using True by (simp add: write_cells_def)
  next
    case False
    then show ?thesis using n l by (simp add: write_cells_def put_def)
  qed
  show ?thesis using n by (simp add: memcpy_def r w)
qed

lemma Init_result:
  assumes "0 \<le> num_data s" "int (length (indices s)) = num_data s" "leaf_count s \<noteq> []"
    "bagging_ok s"
  shows "Init s = Inr (s\<lparr>leaf_begin := replicate (length (leaf_begin s)) 0,
      leaf_count := (replicate (length (leaf_count s)) 0)[0 := int (length (active_ids s))],
      indices := active_ids s @ drop (length (active_ids s)) (indices s)\<rparr>)"
proof (cases "used_data_indices s")
  case None
  have a: "active_ids s = map int [0..<nat (num_data s)]" by (simp add: active_ids_def None)
  have V: "vec_set ''leaf_count_'' (replicate (length (leaf_count s)) 0) 0 (num_data s)
      = Inr ((replicate (length (leaf_count s)) 0)[0 := num_data s])"
    using assms(3) by (simp add: vec_set_def)
  have F: "fill_identity (num_data s) (indices s)
      = Inr (map int [0..<nat (num_data s)] @ drop (nat (num_data s)) (indices s))"
    using assms(1,2) by (intro fill_identity_ok) simp_all
  have n: "int (length (active_ids s)) = num_data s" "length (active_ids s) = nat (num_data s)"
    using assms(1) by (simp_all add: a)
  show ?thesis
    unfolding Init_def Let_def n using assms(1) by (simp add: None V F a)
next
  case (Some used)
  have b: "0 \<le> used_data_count s" "used_data_count s \<le> num_data s"
    "used_data_count s \<le> int (length used)"
    using assms(4) by (simp_all add: bagging_ok_def Some)
  have a: "active_ids s = take (nat (used_data_count s)) used" by (simp add: active_ids_def Some)
  have l: "int (length (active_ids s)) = used_data_count s" using b by (simp add: a)
  have m: "memcpy (indices s) used (used_data_count s)
      = Inr (take (nat (used_data_count s)) used @ drop (nat (used_data_count s)) (indices s))"
    using b assms(2) by (intro memcpy_ok) simp_all
  have n: "length (active_ids s) = nat (used_data_count s)" using l by linarith
  have V: "vec_set ''leaf_count_'' (replicate (length (leaf_count s)) 0) 0 (used_data_count s)
      = Inr ((replicate (length (leaf_count s)) 0)[0 := used_data_count s])"
    using assms(3) by (simp add: vec_set_def)
  show ?thesis
    unfolding Init_def Let_def l n using b(1) by (simp add: Some V m a)
qed

lemma active_ids_length:
  assumes "0 \<le> num_data s" "bagging_ok s"
  shows "int (length (active_ids s)) \<le> num_data s"
    "int (length (active_ids s))
       = (case used_data_indices s of None \<Rightarrow> num_data s | Some used \<Rightarrow> used_data_count s)"
    "distinct (active_ids s)"
  using assms
  by (auto simp add: active_ids_def bagging_ok_def distinct_map inj_on_def split: option.splits)

lemma sum_list_replicate_update:
  "0 < n \<Longrightarrow> sum_list ((replicate n (0::int))[0 := x]) = x"
  by (cases n) (simp_all add: sum_list_replicate)

text \<open>
  Claim C4. \<open>Init\<close> returns. Without a bagging subset leaf \<open>0\<close> then holds the identity
  permutation (\<open>leaf_count[0] = num_data\<close>, \<open>indices[i] = i\<close>); with the subset \<open>S\<close> set by
  \<open>SetUsedDataIndices\<close> it holds \<open>S\<close> in its order (\<open>leaf_count[0] = |S|\<close>,
  \<open>indices[i] = S[i]\<close>). Every other leaf has count \<open>0\<close> and begin \<open>0\<close>, the ids of every leaf
  are active ids, and the counts sum up to the number of active ids.
\<close>

theorem Init_postcondition:
  assumes "sized T s" "1 \<le> num_leaves s" "bagging_ok s"
  shows "\<exists>s'. Init s = Inr s'
    \<and> (used_data_indices s = None \<longrightarrow>
          leaf_count s' ! 0 = num_data s \<and> (\<forall>i<nat (num_data s). indices s' ! i = int i))
    \<and> (\<forall>used. used_data_indices s = Some used \<longrightarrow>
          leaf_count s' ! 0 = used_data_count s
        \<and> (\<forall>i<nat (used_data_count s). indices s' ! i = used ! i))
    \<and> leaf_begin s' ! 0 = 0
    \<and> leaf_range s' 0 = active_ids s
    \<and> (\<forall>l\<in>{1..<num_leaves s}. leaf_count s' ! nat l = 0 \<and> leaf_begin s' ! nat l = 0)
    \<and> (\<forall>l\<in>{0..<num_leaves s}. set (leaf_range s' l) \<subseteq> set (active_ids s))
    \<and> sum_list (leaf_count s') = int (length (active_ids s))
    \<and> int (length (active_ids s))
        = (case used_data_indices s of None \<Rightarrow> num_data s | Some used \<Rightarrow> used_data_count s)"
proof -
  have sz: "0 \<le> num_data s" "int (length (indices s)) = num_data s"
    "int (length (leaf_begin s)) = num_leaves s" "int (length (leaf_count s)) = num_leaves s"
    using assms(1) by (simp_all add: sized_def)
  have ne: "leaf_count s \<noteq> []" "0 < length (leaf_count s)" "0 < length (leaf_begin s)"
    using sz assms(2) by auto
  define n where "n = length (active_ids s)"
  define s' where "s' = s\<lparr>leaf_begin := replicate (length (leaf_begin s)) 0,
      leaf_count := (replicate (length (leaf_count s)) 0)[0 := int n],
      indices := active_ids s @ drop n (indices s)\<rparr>"
  have I: "Init s = Inr s'"
    unfolding s'_def n_def by (rule Init_result [OF sz(1,2) ne(1) assms(3)])
  note al = active_ids_length [OF sz(1) assms(3)]
  have lc0: "leaf_count s' ! 0 = int n" using ne by (simp add: s'_def)
  have lb: "leaf_begin s' ! l = 0" if "l < length (leaf_begin s)" for l
    using that by (simp add: s'_def)
  have lcl: "leaf_count s' ! l = 0" if "0 < l" "l < length (leaf_count s)" for l
    using that by (simp add: s'_def)
  have ix: "indices s' ! i = active_ids s ! i" if "i < n" for i
    using that by (simp add: s'_def nth_append n_def)
  have r0: "leaf_range s' 0 = active_ids s"
    using ne by (simp add: leaf_range_def s'_def n_def)
  have rl: "leaf_range s' l = []" if "l \<in> {1..<num_leaves s}" for l
  proof -
    have "1 \<le> l" "l < int (length (leaf_count s))" using that sz by simp_all
    then have "0 < nat l" "nat l < length (leaf_count s)" by linarith+
    then have "leaf_count s' ! nat l = 0" by (rule lcl)
    then show ?thesis by (simp add: leaf_range_def)
  qed
  have 1: "used_data_indices s = None \<longrightarrow>
          leaf_count s' ! 0 = num_data s \<and> (\<forall>i<nat (num_data s). indices s' ! i = int i)"
  proof
    assume N: "used_data_indices s = None"
    have a: "active_ids s = map int [0..<nat (num_data s)]" by (simp add: active_ids_def N)
    have "n = nat (num_data s)" by (simp add: n_def a)
    then show "leaf_count s' ! 0 = num_data s \<and> (\<forall>i<nat (num_data s). indices s' ! i = int i)"
      using sz(1) ix by (simp add: lc0 a)
  qed
  have 2: "\<forall>used. used_data_indices s = Some used \<longrightarrow>
          leaf_count s' ! 0 = used_data_count s
        \<and> (\<forall>i<nat (used_data_count s). indices s' ! i = used ! i)"
  proof (intro allI impI)
    fix used assume S: "used_data_indices s = Some used"
    have a: "active_ids s = take (nat (used_data_count s)) used" by (simp add: active_ids_def S)
    have "int n = used_data_count s" using al(2) by (simp add: n_def S)
    then show "leaf_count s' ! 0 = used_data_count s
        \<and> (\<forall>i<nat (used_data_count s). indices s' ! i = used ! i)"
      using ix by (simp add: lc0 a)
  qed
  have 6: "\<forall>l\<in>{1..<num_leaves s}. leaf_count s' ! nat l = 0 \<and> leaf_begin s' ! nat l = 0"
    using sz lcl lb by auto
  have 7: "\<forall>l\<in>{0..<num_leaves s}. set (leaf_range s' l) \<subseteq> set (active_ids s)"
  proof
    fix l assume l: "l \<in> {0..<num_leaves s}"
    show "set (leaf_range s' l) \<subseteq> set (active_ids s)"
    proof (cases "l = 0")
      case True
      then show ?thesis by (simp add: r0)
    next
      case False
      then have "l \<in> {1..<num_leaves s}" using l by simp
      then show ?thesis by (simp add: rl)
    qed
  qed
  have 8: "sum_list (leaf_count s') = int (length (active_ids s))"
    using ne by (simp add: s'_def sum_list_replicate_update n_def)
  show ?thesis
    apply (rule exI [of _ s'])
    using I 1 2 lb [of 0] ne r0 6 7 8 al(2) by (intro conjI) simp_all
qed

theorem Init_postcondition_witness:
  "(\<exists>s'. Init (DataPartition_new 2 8 4) = Inr s'
      \<and> leaf_count s' ! 0 = 8 \<and> leaf_range s' 0 = [0, 1, 2, 3, 4, 5, 6, 7]
      \<and> leaf_begin s' ! 0 = 0 \<and> sum_list (leaf_count s') = 8)
   \<and> (\<exists>s'. Init (SetUsedDataIndices (Some [5, 2, 9, 1, 7]) 5 (DataPartition_new 2 8 4)) = Inr s'
      \<and> leaf_count s' ! 0 = 5 \<and> leaf_range s' 0 = [5, 2, 9, 1, 7]
      \<and> leaf_begin s' ! 0 = 0 \<and> sum_list (leaf_count s') = 5)"
proof -
  let ?s = "DataPartition_new 2 8 4"
  let ?b = "SetUsedDataIndices (Some [5, 2, 9, 1, 7]) 5 (DataPartition_new 2 8 4)"
  have u: "[0..<8] = [0, 1, 2, 3, 4, 5, 6, 7]" by (simp add: upt_rec)
  have hs: "sized 2 ?s" "1 \<le> num_leaves ?s" "bagging_ok ?s"
    "active_ids ?s = [0, 1, 2, 3, 4, 5, 6, 7]" "used_data_indices ?s = None" "num_data ?s = 8"
    by (simp_all add: DataPartition_new_def sized_def bagging_ok_def active_ids_def u)
  have hb: "sized 2 ?b" "1 \<le> num_leaves ?b" "bagging_ok ?b"
    "active_ids ?b = [5, 2, 9, 1, 7]" "used_data_indices ?b = Some [5, 2, 9, 1, 7]"
    "used_data_count ?b = 5"
    by (simp_all add: DataPartition_new_def SetUsedDataIndices_def sized_def bagging_ok_def
        active_ids_def)
  from Init_postcondition [OF hs(1-3)] obtain s1 where
    1: "Init ?s = Inr s1" "used_data_indices ?s = None \<longrightarrow> leaf_count s1 ! 0 = num_data ?s
          \<and> (\<forall>i<nat (num_data ?s). indices s1 ! i = int i)"
      "leaf_begin s1 ! 0 = 0" "leaf_range s1 0 = active_ids ?s"
      "sum_list (leaf_count s1) = int (length (active_ids ?s))"
    by (elim exE conjE)
  from Init_postcondition [OF hb(1-3)] obtain s2 where
    2: "Init ?b = Inr s2" "\<forall>used. used_data_indices ?b = Some used \<longrightarrow>
          leaf_count s2 ! 0 = used_data_count ?b
        \<and> (\<forall>i<nat (used_data_count ?b). indices s2 ! i = used ! i)"
      "leaf_begin s2 ! 0 = 0" "leaf_range s2 0 = active_ids ?b"
      "sum_list (leaf_count s2) = int (length (active_ids ?b))"
    by (elim exE conjE)
  have a: "\<exists>s'. Init ?s = Inr s'
      \<and> leaf_count s' ! 0 = 8 \<and> leaf_range s' 0 = [0, 1, 2, 3, 4, 5, 6, 7]
      \<and> leaf_begin s' ! 0 = 0 \<and> sum_list (leaf_count s') = 8"
    apply (rule exI [of _ s1])
    using 1 unfolding hs(4,5,6) by simp
  have b: "\<exists>s'. Init ?b = Inr s'
      \<and> leaf_count s' ! 0 = 5 \<and> leaf_range s' 0 = [5, 2, 9, 1, 7]
      \<and> leaf_begin s' ! 0 = 0 \<and> sum_list (leaf_count s') = 5"
    apply (rule exI [of _ s2])
    using 2 unfolding hb(4,5,6) by simp
  show ?thesis using a b by (rule conjI)
qed

lemma Init_scenario: "Init (DataPartition_new 2 8 4) = Inr scenario"
proof -
  let ?s = "DataPartition_new 2 8 4"
  have u: "[0..<8] = [0, 1, 2, 3, 4, 5, 6, 7]" by (simp add: upt_rec)
  have a: "active_ids ?s = [0, 1, 2, 3, 4, 5, 6, 7]"
    by (simp add: DataPartition_new_def active_ids_def u)
  have "Init ?s = Inr (?s\<lparr>leaf_begin := replicate (length (leaf_begin ?s)) 0,
      leaf_count := (replicate (length (leaf_count ?s)) 0)[0 := int (length (active_ids ?s))],
      indices := active_ids ?s @ drop (length (active_ids ?s)) (indices ?s)\<rparr>)"
    by (rule Init_result) (simp_all add: DataPartition_new_def bagging_ok_def)
  then show ?thesis
    unfolding a by (simp add: scenario_def DataPartition_new_def numeral_eq_Suc)
qed

lemma sum_list_update_int:
  fixes xs :: "int list"
  shows "i < length xs \<Longrightarrow> sum_list (xs[i := x]) = sum_list xs - xs ! i + x"
proof (induction xs arbitrary: i)
  case Nil
  then show ?case by simp
next
  case (Cons a xs)
  then show ?case by (cases i) simp_all
qed

lemma leaf_range_nth:
  assumes "0 \<le> leaf_begin s ! nat l" "int p \<in> leaf_span s l"
    "leaf_begin s ! nat l + leaf_count s ! nat l \<le> int (length (indices s))"
  shows "indices s ! p \<in> set (leaf_range s l)"
proof -
  define b where "b = nat (leaf_begin s ! nat l)"
  define c where "c = nat (leaf_count s ! nat l)"
  have p: "b \<le> p" "p < b + c" "b + c \<le> length (indices s)"
    using assms by (simp_all add: leaf_span_def b_def c_def) linarith+
  have "leaf_range s l ! (p - b) = indices s ! p"
    using p by (simp add: leaf_range_def b_def [symmetric] c_def [symmetric])
  moreover have "p - b < length (leaf_range s l)"
    using p by (simp add: leaf_range_def b_def [symmetric] c_def [symmetric])
  ultimately show ?thesis by (metis nth_mem)
qed

lemma leaf_range_position:
  assumes "x \<in> set (leaf_range s l)" "0 \<le> leaf_begin s ! nat l"
  obtains p where "int p \<in> leaf_span s l" "p < length (indices s)" "indices s ! p = x"
proof -
  define b where "b = nat (leaf_begin s ! nat l)"
  define c where "c = nat (leaf_count s ! nat l)"
  from assms(1) obtain q where q: "q < length (leaf_range s l)" "leaf_range s l ! q = x"
    by (metis in_set_conv_nth)
  have "q < c \<and> q < length (indices s) - b"
    using q(1) by (simp add: leaf_range_def b_def [symmetric] c_def [symmetric])
  then have ql: "q < c" "b + q < length (indices s)" by linarith+
  have "indices s ! (b + q) = x"
    using q ql by (simp add: leaf_range_def b_def [symmetric] c_def [symmetric])
  moreover have "int (b + q) \<in> leaf_span s l"
    using ql assms(2) by (simp add: leaf_span_def b_def c_def)
  ultimately show thesis using that ql by blast
qed

lemma span_bounds:
  assumes "tiles s" "l \<in> {0..<num_leaves s}" "0 < leaf_count s ! nat l"
  shows "0 \<le> leaf_begin s ! nat l"
    "leaf_begin s ! nat l + leaf_count s ! nat l \<le> int (length (active_ids s))"
proof -
  have sub: "leaf_span s l \<subseteq> {0..<int (length (active_ids s))}"
    using assms(1,2) unfolding tiles_def by blast
  have "leaf_begin s ! nat l \<in> leaf_span s l"
    "leaf_begin s ! nat l + leaf_count s ! nat l - 1 \<in> leaf_span s l"
    using assms(3) by (simp_all add: leaf_span_def)
  then have "leaf_begin s ! nat l \<in> {0..<int (length (active_ids s))}"
    "leaf_begin s ! nat l + leaf_count s ! nat l - 1 \<in> {0..<int (length (active_ids s))}"
    using sub by blast+
  then show "0 \<le> leaf_begin s ! nat l"
    "leaf_begin s ! nat l + leaf_count s ! nat l \<le> int (length (active_ids s))"
    by simp_all
qed

lemma unique_leaf:
  assumes t: "tiles s"
    and m: "mset (take (length (active_ids s)) (indices s)) = mset (active_ids s)"
    and d: "distinct (active_ids s)"
    and le: "length (active_ids s) \<le> length (indices s)"
  shows "\<forall>x\<in>set (active_ids s). \<exists>!l. l \<in> {0..<num_leaves s} \<and> x \<in> set (leaf_range s l)"
proof
  fix x assume x: "x \<in> set (active_ids s)"
  define n where "n = length (active_ids s)"
  have dt: "distinct (take n (indices s))"
    using m d unfolding n_def by (metis mset_eq_imp_distinct_iff)
  have "x \<in> set (take n (indices s))"
    using m x unfolding n_def by (metis mset_eq_setD)
  then obtain p where p: "p < n" "indices s ! p = x"
    using le unfolding n_def by (auto simp: in_set_conv_nth)
  have un: "(\<Union>l\<in>{0..<num_leaves s}. leaf_span s l) = {0..<int n}"
    using t by (simp add: tiles_def n_def)
  have "int p \<in> {0..<int n}" using p by simp
  then obtain l where l: "l \<in> {0..<num_leaves s}" "int p \<in> leaf_span s l"
    unfolding un [symmetric] by blast
  have pos: "0 < leaf_count s ! nat l" using l(2) by (auto simp: leaf_span_def)
  have bl: "0 \<le> leaf_begin s ! nat l"
    "leaf_begin s ! nat l + leaf_count s ! nat l \<le> int (length (indices s))"
    using span_bounds [OF t l(1) pos] le by simp_all
  have ex: "x \<in> set (leaf_range s l)"
    using leaf_range_nth [OF bl(1) l(2) bl(2)] p by simp
  have uniq: "l' = l" if l': "l' \<in> {0..<num_leaves s}" "x \<in> set (leaf_range s l')" for l'
  proof (rule ccontr)
    assume ne: "l' \<noteq> l"
    have "leaf_range s l' \<noteq> []" using l'(2) by auto
    then have pos': "0 < leaf_count s ! nat l'" by (auto simp: leaf_range_def)
    have bl': "0 \<le> leaf_begin s ! nat l'"
      "leaf_begin s ! nat l' + leaf_count s ! nat l' \<le> int n"
      using span_bounds [OF t l'(1) pos'] by (simp_all add: n_def)
    obtain p' where p': "int p' \<in> leaf_span s l'" "indices s ! p' = x"
      using leaf_range_position [OF l'(2) bl'(1)] by blast
    have "p' < n" using p'(1) bl' by (simp add: leaf_span_def)
    then have e: "take n (indices s) ! p' = take n (indices s) ! p" using p p' by simp
    have ln: "length (take n (indices s)) = n" using le by (simp add: n_def)
    have "(take n (indices s) ! p' = take n (indices s) ! p) = (p' = p)"
      using p(1) \<open>p' < n\<close> by (intro nth_eq_iff_index_eq [OF dt]) (simp_all only: ln)
    then have "p' = p" using e by simp
    then have "int p \<in> leaf_span s l \<inter> leaf_span s l'" using l(2) p'(1) by simp
    moreover have "leaf_span s l \<inter> leaf_span s l' = {}"
      using t l(1) l'(1) ne unfolding tiles_def by blast
    ultimately show False by simp
  qed
  show "\<exists>!l. l \<in> {0..<num_leaves s} \<and> x \<in> set (leaf_range s l)"
    using l(1) ex uniq by blast
qed

lemma consistent_invariant:
  assumes "consistent T s"
  shows "partition_invariant s"
proof -
  have sz: "0 \<le> num_data s" "int (length (indices s)) = num_data s"
    using assms by (simp_all add: consistent_def sized_def)
  have b: "bagging_ok s" using assms by (simp add: consistent_def)
  note al = active_ids_length [OF sz(1) b]
  have le: "length (active_ids s) \<le> length (indices s)" using al(1) sz(2) by linarith
  have "\<forall>x\<in>set (active_ids s). \<exists>!l. l \<in> {0..<num_leaves s} \<and> x \<in> set (leaf_range s l)"
    using assms al(3) le by (intro unique_leaf) (simp_all add: consistent_def)
  then show ?thesis using assms by (simp add: partition_invariant_def consistent_def)
qed

lemma Init_consistent:
  assumes "sized T s" "1 \<le> num_leaves s" "bagging_ok s"
  shows "\<exists>s'. Init s = Inr s' \<and> consistent T s' \<and> active_ids s' = active_ids s
    \<and> num_leaves s' = num_leaves s \<and> num_data s' = num_data s"
proof -
  have sz: "0 \<le> num_data s" "int (length (indices s)) = num_data s"
    "int (length (leaf_begin s)) = num_leaves s" "int (length (leaf_count s)) = num_leaves s"
    using assms(1) by (simp_all add: sized_def)
  have ne: "leaf_count s \<noteq> []" "0 < length (leaf_count s)" "0 < length (leaf_begin s)"
    using sz assms(2) by auto
  define n where "n = length (active_ids s)"
  define s' where "s' = s\<lparr>leaf_begin := replicate (length (leaf_begin s)) 0,
      leaf_count := (replicate (length (leaf_count s)) 0)[0 := int n],
      indices := active_ids s @ drop n (indices s)\<rparr>"
  have I: "Init s = Inr s'"
    unfolding s'_def n_def by (rule Init_result [OF sz(1,2) ne(1) assms(3)])
  note al = active_ids_length [OF sz(1) assms(3)]
  have le: "n \<le> length (indices s)" using al(1) sz(2) unfolding n_def by linarith
  have f: "used_data_indices s' = used_data_indices s" "num_data s' = num_data s"
    "used_data_count s' = used_data_count s"
    by (simp_all add: s'_def)
  have a: "active_ids s' = active_ids s" by (simp only: active_ids_def f)
  have 1: "sized T s'" using assms(1) le by (simp add: sized_def s'_def n_def)
  have 2: "bagging_ok s'" using assms(3) by (simp only: bagging_ok_def f)
  have 3: "sum_list (leaf_count s') = int (length (active_ids s'))"
    unfolding a using ne by (simp add: s'_def sum_list_replicate_update n_def)
  have sp: "leaf_span s' l = (if l = 0 then {0..<int n} else {})" if "l \<in> {0..<num_leaves s}" for l
  proof -
    have "nat l < length (leaf_count s)" "nat l < length (leaf_begin s)"
      "(nat l = 0) = (l = 0)"
      using that sz by auto
    then show ?thesis using ne by (auto simp add: leaf_span_def s'_def)
  qed
  have z: "(0::int) \<in> {0..<num_leaves s}" using assms(2) by simp
  have 4: "tiles s'"
    unfolding tiles_def
  proof (intro conjI ballI impI)
    fix l assume l: "l \<in> {0..<num_leaves s'}"
    then have "nat l < length (leaf_count s)" using sz by (auto simp: s'_def)
    then show "0 \<le> leaf_count s' ! nat l"
      by (cases "nat l = 0") (simp_all add: s'_def)
  next
    fix l l' assume "l \<in> {0..<num_leaves s'}" "l' \<in> {0..<num_leaves s'}" "l \<noteq> l'"
    then show "leaf_span s' l \<inter> leaf_span s' l' = {}"
      using sp [of l] sp [of l'] by (auto simp: s'_def)
  next
    have "(\<Union>l\<in>{0..<num_leaves s}. leaf_span s' l) = {0..<int n}"
    proof (rule set_eqI, rule iffI)
      fix x assume "x \<in> (\<Union>l\<in>{0..<num_leaves s}. leaf_span s' l)"
      then obtain l where "l \<in> {0..<num_leaves s}" "x \<in> leaf_span s' l" by blast
      then show "x \<in> {0..<int n}" using sp [of l] by (cases "l = 0") simp_all
    next
      fix x assume "x \<in> {0..<int n}"
      then have "x \<in> leaf_span s' 0" using sp [OF z] by simp
      then show "x \<in> (\<Union>l\<in>{0..<num_leaves s}. leaf_span s' l)" using z by blast
    qed
    moreover have "num_leaves s' = num_leaves s" by (simp add: s'_def)
    ultimately show "(\<Union>l\<in>{0..<num_leaves s'}. leaf_span s' l) = {0..<int (length (active_ids s'))}"
      unfolding a n_def by simp
  qed
  have 5: "mset (take (length (active_ids s')) (indices s')) = mset (active_ids s')"
    unfolding a by (simp add: s'_def n_def)
  have nl: "num_leaves s' = num_leaves s" by (simp add: s'_def)
  show ?thesis
    using I 1 2 3 4 5 a nl f(2) unfolding consistent_def by blast
qed

lemma Split_consistent:
  assumes con: "consistent T0 s" and A: "1 \<le> A" and T: "1 \<le> T" "T \<le> T0"
    and rng: "num_data s + 1024 < 2 ^ 31" "num_data s + T0 * A < 2 ^ 31"
    and call: "0 \<le> leaf" "leaf < num_leaves s" "0 \<le> right_leaf" "right_leaf < num_leaves s"
      "leaf \<noteq> right_leaf" "leaf_count s ! nat right_leaf = 0" "0 < leaf_count s ! nat leaf"
  shows "\<exists>s'. Split T A leaf orc right_leaf s = Inr s' \<and> consistent T0 s'
    \<and> active_ids s' = active_ids s \<and> num_leaves s' = num_leaves s
    \<and> num_data s' = num_data s"
proof -
  have sized0: "sized T0 s" using con by (simp add: consistent_def)
  have "T * A \<le> T0 * A" using T(2) A by (intro mult_right_mono) simp_all
  then have rngT: "num_data s + T * A < 2 ^ 31" using rng(2) by linarith
  have sized: "sized T s" and bag: "bagging_ok s"
    and sum: "sum_list (leaf_count s) = int (length (active_ids s))"
    and til: "tiles s"
    and ms: "mset (take (length (active_ids s)) (indices s)) = mset (active_ids s)"
    using con T by (simp_all add: consistent_def sized_def)
  have sz: "0 \<le> num_data s" "int (length (indices s)) = num_data s"
    "int (length (leaf_begin s)) = num_leaves s" "int (length (leaf_count s)) = num_leaves s"
    "1 \<le> T"
    using sized by (simp_all add: sized_def)
  define n where "n = length (active_ids s)"
  note al = active_ids_length [OF sz(1) bag]
  have li: "leaf \<in> {0..<num_leaves s}" "right_leaf \<in> {0..<num_leaves s}" using call by simp_all
  note sb = span_bounds [OF til li(1) call(7)]
  have lis: "leaf_in_store s leaf"
    using call sb al(1) by (simp add: leaf_in_store_def)
  define b where "b = nat (leaf_begin s ! nat leaf)"
  define c where "c = nat (leaf_count s ! nat leaf)"
  define L where "L = routed_left orc (Split_slices T A (leaf_range s leaf))"
  define R where "R = routed_right orc (Split_slices T A (leaf_range s leaf))"
  have ib: "leaf_begin s ! nat leaf = int b" "leaf_count s ! nat leaf = int c"
    using sb call(7) by (simp_all add: b_def c_def)
  have bn: "b + c \<le> n" using sb(2) unfolding ib n_def by linarith
  have nl: "n \<le> length (indices s)" using al(1) sz(2) unfolding n_def by linarith
  from Split_result [OF sized A lis call(7,3,4) rng(1) rngT, of orc] obtain s' where
    S: "Split T A leaf orc right_leaf s = Inr s'"
    and ix: "indices s' = take b (indices s) @ L @ R @ drop (b + c) (indices s)"
    and lc: "leaf_count s' = (leaf_count s)
          [nat leaf := int (length L), nat right_leaf := int c - int (length L)]"
    and lb: "leaf_begin s' = (leaf_begin s) [nat right_leaf := int (length L) + int b]"
    and fr: "num_data s' = num_data s" "num_leaves s' = num_leaves s"
      "used_data_indices s' = used_data_indices s" "used_data_count s' = used_data_count s"
    and ln: "length (temp_left_indices s') = length (temp_left_indices s)"
      "length (temp_right_indices s') = length (temp_right_indices s)"
      "length (offsets_buf s') = length (offsets_buf s)"
      "length (left_cnts_buf s') = length (left_cnts_buf s)"
      "length (right_cnts_buf s') = length (right_cnts_buf s)"
      "length (left_write_pos_buf s') = length (left_write_pos_buf s)"
      "length (right_write_pos_buf s') = length (right_write_pos_buf s)"
    unfolding L_def [symmetric] R_def [symmetric] ib nat_int
    by (elim exE conjE)
  have pr: "leaf_range s leaf = take c (drop b (indices s))"
    by (simp add: leaf_range_def b_def c_def)
  have pc: "length (leaf_range s leaf) = c" using bn nl by (simp add: pr)
  have r32: "int (length (leaf_range s leaf)) + 1024 < 2147483648"
    "int (length (leaf_range s leaf)) + T * A < 2147483648"
    using pc bn nl sz(2) rng(1) rngT by simp_all
  have cc: "concat (Split_slices T A (leaf_range s leaf)) = leaf_range s leaf"
    by (rule concat_Split_slices [OF sz(5) A r32])
  have LR: "length L + length R = c"
    using routed_length [of orc "Split_slices T A (leaf_range s leaf)"] pc
    by (simp add: L_def R_def cc)
  have "mset L + mset R = mset (leaf_range s leaf)"
    using routed_mset [of orc "Split_slices T A (leaf_range s leaf)"]
    by (simp only: L_def R_def cc)
  then have mLR: "mset L + mset R = mset (take c (drop b (indices s)))"
    by (simp only: pr)
  have a: "active_ids s' = active_ids s" by (simp only: active_ids_def fr)
  have len: "length (indices s') = length (indices s)" using bn nl LR by (simp add: ix)
  have 1: "sized T0 s'"
    using sized0 by (simp add: sized_def fr ln len lc lb)
  have 2: "bagging_ok s'" using bag by (simp only: bagging_ok_def fr)
  have il: "nat leaf < length (leaf_count s)" "nat right_leaf < length (leaf_count s)"
    "nat leaf \<noteq> nat right_leaf" "nat right_leaf < length (leaf_begin s)"
    using call sz by simp_all
  have 3: "sum_list (leaf_count s') = int (length (active_ids s'))"
    using il call(6) sum by (simp add: lc a sum_list_update_int ib)
  have e1: "leaf_begin s' ! nat l
      = (if l = right_leaf then int (length L) + int b else leaf_begin s ! nat l)"
    if "l \<in> {0..<num_leaves s}" for l
  proof -
    have "(nat right_leaf = nat l) = (l = right_leaf)" using that call by auto
    then show ?thesis using il by (simp add: lb nth_list_update)
  qed
  have e2: "leaf_count s' ! nat l
      = (if l = right_leaf then int c - int (length L)
         else if l = leaf then int (length L) else leaf_count s ! nat l)"
    if "l \<in> {0..<num_leaves s}" for l
  proof -
    have "(nat right_leaf = nat l) = (l = right_leaf)" "(nat leaf = nat l) = (l = leaf)"
      using that call by auto
    then show ?thesis using il by (simp add: lc nth_list_update)
  qed
  have old_leaf: "leaf_span s leaf = {int b..<int b + int c}" by (simp add: leaf_span_def ib)
  have old_right: "leaf_span s right_leaf = {}" by (simp add: leaf_span_def call(6))
  have sp: "leaf_span s' l
      = (if l = right_leaf then {int b + int (length L)..<int b + int c}
         else if l = leaf then {int b..<int b + int (length L)} else leaf_span s l)"
    if "l \<in> {0..<num_leaves s}" for l
    using e1 [OF that] e2 [OF that] call(5)
    by (auto simp add: leaf_span_def ib)
  have sub: "leaf_span s' leaf \<subseteq> leaf_span s leaf" "leaf_span s' right_leaf \<subseteq> leaf_span s leaf"
    "leaf_span s' leaf \<inter> leaf_span s' right_leaf = {}"
    "leaf_span s leaf \<subseteq> leaf_span s' leaf \<union> leaf_span s' right_leaf"
    using sp [OF li(1)] sp [OF li(2)] call(5) LR unfolding old_leaf by auto
  have dj: "leaf_span s l \<inter> leaf_span s l' = {}"
    if "l \<in> {0..<num_leaves s}" "l' \<in> {0..<num_leaves s}" "l \<noteq> l'" for l l'
    using til that unfolding tiles_def by blast
  have un: "(\<Union>l\<in>{0..<num_leaves s}. leaf_span s l) = {0..<int n}"
    using til by (simp add: tiles_def n_def)
  have 4: "tiles s'"
    unfolding tiles_def fr a
  proof (intro conjI ballI impI)
    fix l assume l: "l \<in> {0..<num_leaves s}"
    have "0 \<le> leaf_count s ! nat l" using til l unfolding tiles_def by blast
    then show "0 \<le> leaf_count s' ! nat l" using e2 [OF l] LR by auto
  next
    fix l l' assume l: "l \<in> {0..<num_leaves s}" "l' \<in> {0..<num_leaves s}" "l \<noteq> l'"
    consider "l = leaf" "l' = right_leaf" | "l = right_leaf" "l' = leaf"
      | "l \<in> {leaf, right_leaf}" "l' \<notin> {leaf, right_leaf}"
      | "l \<notin> {leaf, right_leaf}" "l' \<in> {leaf, right_leaf}"
      | "l \<notin> {leaf, right_leaf}" "l' \<notin> {leaf, right_leaf}"
      using l(3) by blast
    then show "leaf_span s' l \<inter> leaf_span s' l' = {}"
    proof cases
      case 1
      then show ?thesis using sub(3) by simp
    next
      case 2
      then show ?thesis using sub(3) by (simp add: Int_commute)
    next
      case 3
      then have "leaf_span s' l \<subseteq> leaf_span s leaf" "leaf_span s' l' = leaf_span s l'" "l' \<noteq> leaf"
        using sub(1,2) sp [OF l(2)] by auto
      then show ?thesis using dj [OF li(1) l(2)] by blast
    next
      case 4
      then have "leaf_span s' l' \<subseteq> leaf_span s leaf" "leaf_span s' l = leaf_span s l" "l \<noteq> leaf"
        using sub(1,2) sp [OF l(1)] by auto
      then show ?thesis using dj [OF li(1) l(1)] by blast
    next
      case 5
      then have "leaf_span s' l = leaf_span s l" "leaf_span s' l' = leaf_span s l'"
        using sp [OF l(1)] sp [OF l(2)] by auto
      then show ?thesis using dj [OF l] by simp
    qed
  next
    have "(\<Union>l\<in>{0..<num_leaves s}. leaf_span s' l) = (\<Union>l\<in>{0..<num_leaves s}. leaf_span s l)"
    proof (rule set_eqI, rule iffI)
      fix x assume "x \<in> (\<Union>l\<in>{0..<num_leaves s}. leaf_span s' l)"
      then obtain l where l: "l \<in> {0..<num_leaves s}" "x \<in> leaf_span s' l" by blast
      show "x \<in> (\<Union>l\<in>{0..<num_leaves s}. leaf_span s l)"
      proof (cases "l \<in> {leaf, right_leaf}")
        case True
        then have "x \<in> leaf_span s leaf" using l(2) sub(1,2) by auto
        then show ?thesis using li(1) by blast
      next
        case False
        then have "x \<in> leaf_span s l" using l(2) sp [OF l(1)] by auto
        then show ?thesis using l(1) by blast
      qed
    next
      fix x assume "x \<in> (\<Union>l\<in>{0..<num_leaves s}. leaf_span s l)"
      then obtain l where l: "l \<in> {0..<num_leaves s}" "x \<in> leaf_span s l" by blast
      have nr: "l \<noteq> right_leaf" using l(2) old_right by auto
      show "x \<in> (\<Union>l\<in>{0..<num_leaves s}. leaf_span s' l)"
      proof (cases "l = leaf")
        case True
        then have "x \<in> leaf_span s' leaf \<union> leaf_span s' right_leaf" using l(2) sub(4) by auto
        then show ?thesis using li by blast
      next
        case False
        then have "x \<in> leaf_span s' l" using l(2) nr sp [OF l(1)] by auto
        then show ?thesis using l(1) by blast
      qed
    qed
    then show "(\<Union>l\<in>{0..<num_leaves s}. leaf_span s' l) = {0..<int (length (active_ids s))}"
      using un by (simp add: n_def)
  qed
  have 5: "mset (take (length (active_ids s')) (indices s')) = mset (active_ids s')"
  proof -
    have t1: "take n (indices s') = take b (indices s) @ L @ R
        @ take (n - (b + c)) (drop (b + c) (indices s))"
    proof -
      have "length L \<le> n - b" "length R \<le> n - (b + length L)"
        "n - (b + length L + length R) = n - (b + c)"
        using LR bn by linarith+
      then show ?thesis using bn nl by (simp add: ix)
    qed
    have "take n (indices s) = take (b + c) (take n (indices s))
        @ drop (b + c) (take n (indices s))"
      by (simp only: append_take_drop_id)
    also have "take (b + c) (take n (indices s)) = take b (indices s) @ take c (drop b (indices s))"
      using bn by (simp add: take_add min_def)
    also have "drop (b + c) (take n (indices s)) = take (n - (b + c)) (drop (b + c) (indices s))"
      by (simp add: drop_take)
    finally have t2: "take n (indices s) = (take b (indices s) @ take c (drop b (indices s)))
        @ take (n - (b + c)) (drop (b + c) (indices s))" .
    have "mset (take n (indices s')) = mset (take n (indices s))"
      unfolding t1 t2 using mLR by (simp add: union_assoc [symmetric])
    then show ?thesis using ms by (simp add: a n_def)
  qed
  show ?thesis
    using S 1 2 3 4 5 a fr(1,2) unfolding consistent_def by blast
qed

lemma Splits_consistent:
  "consistent T0 s \<Longrightarrow> 1 \<le> A \<Longrightarrow> num_data s + 1024 < 2 ^ 31 \<Longrightarrow> num_data s + T0 * A < 2 ^ 31
     \<Longrightarrow> splits_ok T0 A calls s
     \<Longrightarrow> \<exists>s'. Splits A calls s = Inr s' \<and> consistent T0 s'
           \<and> active_ids s' = active_ids s \<and> num_leaves s' = num_leaves s"
proof (induction calls arbitrary: s)
  case Nil
  then show ?case by simp
next
  case (Cons call calls)
  obtain T leaf orc right_leaf where call: "call = (T, leaf, orc, right_leaf)"
    by (cases call) auto
  have T: "1 \<le> T" "T \<le> T0"
    and ok: "0 \<le> leaf" "leaf < num_leaves s" "0 \<le> right_leaf" "right_leaf < num_leaves s"
    "leaf \<noteq> right_leaf" "leaf_count s ! nat right_leaf = 0" "0 < leaf_count s ! nat leaf"
    and rest: "case Split T A leaf orc right_leaf s of
            Inl e \<Rightarrow> True
          | Inr s' \<Rightarrow> splits_ok T0 A calls s'"
    using Cons.prems(5) by (simp_all add: call)
  from Split_consistent [OF Cons.prems(1,2) T Cons.prems(3,4) ok, of orc] obtain s1 where
    S: "Split T A leaf orc right_leaf s = Inr s1" and c: "consistent T0 s1"
    and a: "active_ids s1 = active_ids s" "num_leaves s1 = num_leaves s"
      "num_data s1 = num_data s"
    by blast
  have "splits_ok T0 A calls s1" using rest by (simp add: S)
  moreover have "num_data s1 + 1024 < 2 ^ 31" "num_data s1 + T0 * A < 2 ^ 31"
    using Cons.prems(3,4) by (simp_all only: a(3))
  ultimately obtain s' where
    "Splits A calls s1 = Inr s'" "consistent T0 s'"
    "active_ids s' = active_ids s1" "num_leaves s' = num_leaves s1"
    using Cons.IH [OF c Cons.prems(2)] by blast
  then show ?case using S a by (simp add: call)
qed

text \<open>
  Claim C1, for calls that split a leaf holding at least one id and that the store has room
  for. Let the store have the sizes that its constructor gives it under \<open>T0 \<ge> 1\<close> threads
  (\<open>sized T0 s0\<close>) and at least one leaf, let the alignment be \<open>A \<ge> 1\<close>, let
  \<open>num_data + 1024\<close> and \<open>num_data + T0 * A\<close> be below \<open>2 ^ 31\<close>, and let a bagging subset, if
  one was set, consist of different ids, its count being between \<open>0\<close> and \<open>num_data\<close> and
  covered by the array. After \<open>Init\<close> and after every sequence of \<open>Split\<close> calls that follows
  it (each under a thread count between \<open>1\<close> and \<open>T0\<close>, with two different leaf ids of the
  store, a right leaf that is not in use, and a leaf to split that is not empty), the counts
  of the leaves sum up to \<open>num_data\<close>, or to \<open>used_data_count\<close> under bagging; the ranges of
  the leaves are pairwise disjoint and tile the prefix of \<open>indices_\<close> that holds the active
  ids; the prefix is a permutation of the active ids; and every active id lies in the range
  of exactly one leaf.
\<close>

theorem partition_invariant_holds:
  assumes "sized T0 s0" "1 \<le> A" "1 \<le> num_leaves s0" "bagging_ok s0"
    and "num_data s0 + 1024 < 2 ^ 31" "num_data s0 + T0 * A < 2 ^ 31"
    and "\<forall>s1. Init s0 = Inr s1 \<longrightarrow> splits_ok T0 A calls s1"
  shows "\<exists>s'. bindR (Init s0) (Splits A calls) = Inr s'
    \<and> partition_invariant s'
    \<and> active_ids s' = active_ids s0
    \<and> sum_list (leaf_count s')
        = (case used_data_indices s0 of None \<Rightarrow> num_data s0 | Some used \<Rightarrow> used_data_count s0)"
proof -
  from Init_consistent [OF assms(1,3,4)] obtain s1 where
    I: "Init s0 = Inr s1" and c: "consistent T0 s1" and a: "active_ids s1 = active_ids s0"
    and n: "num_data s1 = num_data s0"
    by blast
  have ok: "splits_ok T0 A calls s1" using assms(7) I by blast
  have rng: "num_data s1 + 1024 < 2 ^ 31" "num_data s1 + T0 * A < 2 ^ 31"
    using assms(5,6) by (simp_all only: n)
  from Splits_consistent [OF c assms(2) rng ok] obtain s' where
    S: "Splits A calls s1 = Inr s'" and c': "consistent T0 s'"
    and a': "active_ids s' = active_ids s1"
    by blast
  have sz: "0 \<le> num_data s0" using assms(1) by (simp add: sized_def)
  have "sum_list (leaf_count s') = int (length (active_ids s'))"
    using c' by (simp add: consistent_def)
  then have sum: "sum_list (leaf_count s')
        = (case used_data_indices s0 of None \<Rightarrow> num_data s0 | Some used \<Rightarrow> used_data_count s0)"
    using active_ids_length(2) [OF sz assms(4)] by (simp add: a a')
  show ?thesis
    apply (rule exI [of _ s'])
    using I S consistent_invariant [OF c'] a a' sum by simp
qed

text \<open>
  Claim C1 as stated covers every call with a right leaf that is not in use. The second call
  below has one (leaf \<open>2\<close>) and splits leaf \<open>1\<close>, which the first call left empty: \<open>Split\<close>
  reads \<open>left_write_pos_buf_[-1]\<close>, and no store results of which the invariant could hold.
\<close>

theorem partition_invariant_empty_leaf_counterexample:
  "Init (DataPartition_new 2 8 4) = Inr scenario
   \<and> Splits 32 [(2, 0, all_left, 1)] scenario = Inr emptied
   \<and> num_leaves emptied = 4 \<and> leaf_count emptied ! 1 = 0 \<and> leaf_count emptied ! 2 = 0
   \<and> Splits 32 [(2, 0, all_left, 1), (2, 1, all_left, 2)] scenario
       = Inl (OutOfRange ''left_write_pos_buf_'' (- 1))"
  by code_simp

text \<open>
  Claim C2 as stated covers a leaf whose range is the empty sequence. Leaf \<open>1\<close> of \<open>emptied\<close>
  is such a leaf, and \<open>Split\<close> of it reads \<open>left_write_pos_buf_[-1]\<close>: the call has no
  defined outcome.
\<close>

theorem Split_stable_empty_leaf_counterexample:
  "Split 2 32 0 all_left 1 scenario = Inr emptied
   \<and> leaf_range emptied 1 = []
   \<and> Split 2 32 1 even_left 2 emptied = Inl (OutOfRange ''left_write_pos_buf_'' (- 1))"
  by code_simp

lemma Init_1025:
  "Init (DataPartition_new 2 1025 3)
     = Inr ((DataPartition_new 2 1025 3)\<lparr>leaf_count := [1025, 0, 0], indices := map int [0..<1025]\<rparr>)"
proof -
  let ?s = "DataPartition_new 2 1025 3"
  have a: "active_ids ?s = map int [0..<1025]"
    by (simp add: DataPartition_new_def active_ids_def)
  have r: "replicate 3 (0::int) = [0, 0, 0]" by (simp add: numeral_3_eq_3)
  have "Init ?s = Inr (?s\<lparr>leaf_begin := replicate (length (leaf_begin ?s)) 0,
      leaf_count := (replicate (length (leaf_count ?s)) 0)[0 := int (length (active_ids ?s))],
      indices := active_ids ?s @ drop (length (active_ids ?s)) (indices ?s)\<rparr>)"
    by (rule Init_result) (simp_all add: DataPartition_new_def bagging_ok_def)
  then show ?thesis
    unfolding a by (simp add: DataPartition_new_def r)
qed

theorem partition_invariant_holds_witness:
  "\<exists>s'. bindR (Init (DataPartition_new 2 1025 3))
           (Splits 32 [(2, 0, even_left, 1), (1, 1, even_left, 2)]) = Inr s'
    \<and> partition_invariant s'
    \<and> active_ids s' = map int [0..<1025]
    \<and> sum_list (leaf_count s') = 1025"
proof -
  let ?s = "DataPartition_new 2 1025 3"
  define X where "X = ?s\<lparr>leaf_count := [1025, 0, 0], indices := map int [0..<1025]\<rparr>"
  have hs: "sized 2 ?s" "(1::int) \<le> 32" "1 \<le> num_leaves ?s" "bagging_ok ?s"
    "num_data ?s + 1024 < 2 ^ 31" "num_data ?s + 2 * 32 < 2 ^ 31"
    by (simp_all add: DataPartition_new_def sized_def bagging_ok_def)
  have v: "active_ids ?s = map int [0..<1025]" "used_data_indices ?s = None" "num_data ?s = 1025"
    by (simp_all add: DataPartition_new_def active_ids_def)
  have I: "Init ?s = Inr X" unfolding X_def by (rule Init_1025)
  have x: "sized 2 X" "leaf_in_store X 0" "0 < leaf_count X ! nat 0" "(1::int) < num_leaves X"
    "num_data X + 1024 < 2 ^ 31" "num_data X + 2 * 32 < 2 ^ 31"
    "leaf_range X 0 = map int [0..<1025]" "leaf_count X = [1025, 0, 0]" "num_leaves X = 3"
    by (simp_all add: X_def DataPartition_new_def sized_def leaf_in_store_def leaf_range_def)
  have h: "(0::int) \<le> 1" by simp
  from Split_result [OF x(1) hs(2) x(2,3) h x(4,5,6), of even_left] obtain s1 where
    S: "Split 2 32 0 even_left 1 X = Inr s1"
    and lc: "leaf_count s1 = (leaf_count X)
          [nat 0 := int (length (routed_left even_left (Split_slices 2 32 (leaf_range X 0)))),
           nat 1 := leaf_count X ! nat 0
              - int (length (routed_left even_left (Split_slices 2 32 (leaf_range X 0))))]"
    and nl: "num_leaves s1 = num_leaves X"
    by (elim exE conjE)
  have d: "fst (dataset_Split even_left xs) = filter even xs" for xs
    by (simp add: dataset_Split_by_id even_left_def [abs_def])
  have L: "int (length (routed_left even_left (Split_slices 2 32 (leaf_range X 0)))) = 513"
    unfolding routed_left_sum [symmetric] x(7) slices_large
    by (simp only: list.map sum_list.Cons sum_list.Nil d even_counts)
  have lc1: "leaf_count s1 = [513, 512, 0]" unfolding lc L x(8) by simp
  have ok2: "splits_ok 2 32 [(1, 1, even_left, 2)] s1"
    by (cases "Split 1 32 1 even_left 2 s1") (simp_all add: lc1 nl x(9))
  have ok: "splits_ok 2 32 [(2, 0, even_left, 1), (1, 1, even_left, 2)] X"
    using ok2 by (simp add: S x(8,9))
  have hyp: "\<forall>s1. Init ?s = Inr s1 \<longrightarrow> splits_ok 2 32 [(2, 0, even_left, 1), (1, 1, even_left, 2)] s1"
    using ok by (simp add: I)
  show ?thesis
    using partition_invariant_holds [OF hs hyp] unfolding v by simp
qed

end
